theory Spec2Isabelle
  imports Main "HOL-Library.AList"
begin

section \<open>The WebSocket client of src/index.ts\<close>

text \<open>
  The class \<open>WebSocketClient\<close> is an event-driven program: its methods and the handlers it
  installs on sockets and timers run one at a time, each to completion. The model is a record
  of the fields of the class, one HOL function per method or handler, and a function
  \<open>step\<close> that runs the handler an event of the environment triggers.

  What the environment contributes is kept explicit:
  \<^item> every \<open>WebSocket\<close> the client creates has a ready state; the list \<open>sockets\<close> holds them
    in creation order and \<open>socket\<close> (the field \<open>this.socket\<close>) is the index of the latest;
    handlers of older sockets stay installed, as in the source, which never detaches them;
  \<^item> \<open>socket.send\<close> throws on a connecting socket, transmits on an open one and discards
    the data on a closing or closed one, as the WebSocket interface prescribes;
  \<^item> \<open>Date.now()\<close> is a parameter of the events that read the clock;
  \<^item> payloads and request parameters are JSON values;
  \<^item> the functions a subscriber passes in (\<open>callback\<close>, \<open>predicate\<close>) are functions of their
    arguments that return or throw and do not call back into the client; whether a
    \<open>restfulApiFunc\<close> was passed is a flag, and the settling of the promise it returns is an
    event;
  \<^item> what the client does to the outside (sockets created, data transmitted, callbacks and
    poll functions invoked) is appended to \<open>trace\<close>.
\<close>

subsection \<open>Data\<close>

datatype json =
    JNull
  | JBool bool
  | JNum int
  | JStr string
  | JArr "json list"
  | JObj "(string \<times> json) list"

text \<open>\<open>data?.error\<close>: the property \<open>error\<close> of a decoded payload, \<open>None\<close> for \<open>undefined\<close>.\<close>

fun error_field :: "json \<Rightarrow> json option" where
  "error_field (JObj kvs) = map_of kvs ''error''"
| "error_field _ = None"

text \<open>The request \<open>{ ...params, id }\<close>: the caller's parameters with the id set.\<close>

record msg =
  params :: json
  msg_id :: nat

text \<open>A user function returns (\<open>Inr\<close>) or throws a value (\<open>Inl\<close>).\<close>

type_synonym callback_fn = "json \<Rightarrow> json \<Rightarrow> json + unit"
type_synonym predicate_fn = "json \<Rightarrow> json + bool"

record subscription =
  message :: msg
  callback :: callback_fn
  predicate :: predicate_fn
  restfulApiFunc :: bool

datatype ready = Connecting | Opened | Closing | Closed

datatype exn = InvalidStateError | TypeError | Thrown json

datatype phase = InFlight | Sleeping | Finished

text \<open>
  One activation of the async function \<open>pollRestfulAPIForSubscription\<close>: the constants it
  destructured from the subscription object, and where its loop is suspended.
\<close>

record poller =
  pid :: nat
  pcallback :: callback_fn
  ppredicate :: predicate_fn
  phase :: phase

datatype action =
    NewWebSocket nat
  | SocketSend nat msg
  | SocketClose nat
  | Callback nat json json
  | RestfulCall nat
  | ConsoleLog json

text \<open>
  The fields of the class. \<open>reconnectTimer\<close> says whether the timeout set by \<open>reconnect\<close> is
  pending, \<open>checkIdleTimer\<close> whether the interval set by \<open>onopen\<close> is. The subscription
  object is shared by the \<open>Map\<close> and by every polling loop started for it, and lives on in
  the loops after \<open>subscriptions.delete\<close>; its one mutable property is \<open>shouldStop\<close>.
  The \<open>Map\<close> entry holds the immutable properties, in insertion order, and \<open>shouldStop\<close>
  holds that property of the object created with a given id (\<open>None\<close>: the object has no
  such property). Ids are fresh, so one id names one object.
\<close>

record client =
  url :: string
  sockets :: "ready list"
  socket :: "nat option"
  isOpened :: bool
  messageQueue :: "msg list"
  reconnectTimer :: bool
  idCounter :: nat
  reconnectCount :: nat
  subscriptions :: "(nat \<times> subscription) list"
  usingRestfulAPI :: bool
  isBehind :: bool
  idleTime :: int
  lastActiveTime :: "int option"
  checkIdleTimer :: bool
  shouldStop :: "nat \<Rightarrow> bool option"
  pollers :: "poller list"
  trace :: "action list"

subsection \<open>Sockets\<close>

text \<open>The ready state of the socket created \<open>i\<close>-th, and the record of an action.\<close>

definition ready_of :: "client \<Rightarrow> nat \<Rightarrow> ready option" where
  "ready_of s i = (if i < length (sockets s) then Some (sockets s ! i) else None)"

definition emit :: "action \<Rightarrow> client \<Rightarrow> client" where
  "emit a s = s\<lparr>trace := trace s @ [a]\<rparr>"

text \<open>\<open>send(message) { this.socket.send(JSON.stringify(message)) }\<close>\<close>

definition send :: "msg \<Rightarrow> client \<Rightarrow> exn option \<times> client" where
  "send m s =
     (case socket s of
        None \<Rightarrow> (Some TypeError, s)
      | Some i \<Rightarrow>
          (case ready_of s i of
             Some Connecting \<Rightarrow> (Some InvalidStateError, s)
           | Some Opened \<Rightarrow> (None, emit (SocketSend i m) s)
           | _ \<Rightarrow> (None, s)))"

text \<open>\<open>close() { this.socket.close() }\<close>\<close>

definition close :: "client \<Rightarrow> client" where
  "close s =
     (case socket s of
        None \<Rightarrow> s
      | Some i \<Rightarrow>
          (case ready_of s i of
             Some Connecting \<Rightarrow> emit (SocketClose i) (s\<lparr>sockets := (sockets s)[i := Closing]\<rparr>)
           | Some Opened \<Rightarrow> emit (SocketClose i) (s\<lparr>sockets := (sockets s)[i := Closing]\<rparr>)
           | _ \<Rightarrow> s))"

subsection \<open>Connection management\<close>

definition stopReconnect :: "client \<Rightarrow> client" where
  "stopReconnect s = s\<lparr>reconnectTimer := False, reconnectCount := 0\<rparr>"

text \<open>The loop of \<open>sendCachedMessages\<close>: \<open>this.send(this.messageQueue.shift())\<close>.\<close>

function sendCachedLoop :: "client \<Rightarrow> exn option \<times> client" where
  "sendCachedLoop s =
     (case messageQueue s of
        [] \<Rightarrow> (None, s)
      | m # ms \<Rightarrow>
          (case send m (s\<lparr>messageQueue := ms\<rparr>) of
             (Some e, s') \<Rightarrow> (Some e, s')
           | (None, s') \<Rightarrow> sendCachedLoop s'))"
  by pat_completeness auto
termination
  by (relation "measure (\<lambda>s. length (messageQueue s))")
     (auto simp: send_def emit_def split: option.splits ready.splits)

declare sendCachedLoop.simps [simp del]

definition sendCachedMessages :: "client \<Rightarrow> exn option \<times> client" where
  "sendCachedMessages s = (if isOpened s then sendCachedLoop s else (None, s))"

definition initWebSocket :: "client \<Rightarrow> client" where
  "initWebSocket s =
     emit (NewWebSocket (length (sockets s)))
       (s\<lparr>sockets := sockets s @ [Connecting], socket := Some (length (sockets s))\<rparr>)"

text \<open>The handler \<open>socket.onopen\<close>; an exception of \<open>sendCachedMessages\<close> ends it.\<close>

definition onopen :: "int \<Rightarrow> client \<Rightarrow> client" where
  "onopen now s =
     (case sendCachedMessages
             (s\<lparr>lastActiveTime := Some now, isOpened := True, isBehind := False,
                usingRestfulAPI := False, reconnectCount := 0\<rparr>) of
        (Some e, s') \<Rightarrow> s'
      | (None, s') \<Rightarrow> (stopReconnect s')\<lparr>checkIdleTimer := True\<rparr>)"

definition reconnect :: "client \<Rightarrow> client" where
  "reconnect s = s\<lparr>isOpened := False, reconnectTimer := True\<rparr>"

text \<open>The handler \<open>socket.onclose\<close>.\<close>

definition onclose :: "client \<Rightarrow> client" where
  "onclose s =
     (let s1 = s\<lparr>isOpened := False\<rparr>;
          s2 = (if \<not> isBehind s1 then reconnect s1 else s1)
      in s2\<lparr>checkIdleTimer := False\<rparr>)"

text \<open>The handler \<open>socket.onerror\<close>.\<close>

definition onerror :: "client \<Rightarrow> client" where
  "onerror s = s\<lparr>isOpened := False\<rparr>"

subsection \<open>Fallback polling\<close>

text \<open>
  The head of the loop \<open>while (this.usingRestfulAPI && !subscription.shouldStop)\<close> of the
  activation for the object with id \<open>i\<close>, up to the \<open>await restfulApiFunc()\<close>.
\<close>

definition pollLoopHead :: "nat \<Rightarrow> client \<Rightarrow> phase \<times> client" where
  "pollLoopHead i s =
     (if usingRestfulAPI s \<and> shouldStop s i \<noteq> Some True
      then (InFlight, emit (RestfulCall i) s)
      else (Finished, s))"

text \<open>
  \<open>pollRestfulAPIForSubscription(id)\<close> up to its first \<open>await\<close>. It is an async function:
  destructuring a missing subscription rejects its promise and throws nothing to the caller.
\<close>

definition pollRestfulAPIForSubscription :: "nat \<Rightarrow> client \<Rightarrow> client" where
  "pollRestfulAPIForSubscription i s =
     (case map_of (subscriptions s) i of
        None \<Rightarrow> s
      | Some sub \<Rightarrow>
          if \<not> restfulApiFunc sub then s
          else
            (let s1 = (case shouldStop s i of
                         None \<Rightarrow> s\<lparr>shouldStop := (shouldStop s)(i \<mapsto> False)\<rparr>
                       | Some b \<Rightarrow> s);
                 (ph, s2) = pollLoopHead i s1
             in s2\<lparr>pollers := pollers s2 @
                   [\<lparr>pid = i, pcallback = callback sub, ppredicate = predicate sub,
                     phase = ph\<rparr>]\<rparr>))"

text \<open>\<open>pollRestfulAPI(id)\<close>: \<open>if (id)\<close> is false for a missing id and for 0.\<close>

definition pollRestfulAPI :: "nat option \<Rightarrow> client \<Rightarrow> client" where
  "pollRestfulAPI io s =
     (case io of
        Some i \<Rightarrow>
          if i \<noteq> 0 then pollRestfulAPIForSubscription i s
          else fold pollRestfulAPIForSubscription (map fst (subscriptions s)) s
      | None \<Rightarrow> fold pollRestfulAPIForSubscription (map fst (subscriptions s)) s)"

definition set_phase :: "nat \<Rightarrow> phase \<Rightarrow> client \<Rightarrow> client" where
  "set_phase k ph s = s\<lparr>pollers := (pollers s)[k := (pollers s ! k)\<lparr>phase := ph\<rparr>]\<rparr>"

text \<open>
  The \<open>catch (error)\<close> block of the loop: \<open>callback(error, null)\<close>; if that throws, the
  promise of the activation rejects and the loop is over.
\<close>

definition pollCatch :: "nat \<Rightarrow> json \<Rightarrow> client \<Rightarrow> client" where
  "pollCatch k e s =
     (let p = pollers s ! k; s1 = emit (Callback (pid p) e JNull) s
      in case pcallback p e JNull of
           Inl x \<Rightarrow> set_phase k Finished s1
         | Inr u \<Rightarrow> set_phase k Sleeping s1)"

text \<open>The loop body after \<open>await restfulApiFunc()\<close> has resolved with \<open>response\<close>.\<close>

definition pollResolved :: "nat \<Rightarrow> json \<Rightarrow> client \<Rightarrow> client" where
  "pollResolved k response s =
     (let p = pollers s ! k
      in case ppredicate p response of
           Inl x \<Rightarrow> pollCatch k x s
         | Inr False \<Rightarrow> set_phase k Sleeping s
         | Inr True \<Rightarrow>
             (let s1 = emit (Callback (pid p) JNull response) s
              in case pcallback p JNull response of
                   Inl x \<Rightarrow> pollCatch k x s1
                 | Inr u \<Rightarrow> set_phase k Sleeping s1))"

text \<open>The loop after the one-second pause: back to the head.\<close>

definition pollWake :: "nat \<Rightarrow> client \<Rightarrow> client" where
  "pollWake k s =
     (let (ph, s1) = pollLoopHead (pid (pollers s ! k)) s in set_phase k ph s1)"

definition stopPollingById :: "nat \<Rightarrow> client \<Rightarrow> client" where
  "stopPollingById i s =
     (case map_of (subscriptions s) i of
        None \<Rightarrow> s
      | Some sub \<Rightarrow> s\<lparr>shouldStop := (shouldStop s)(i \<mapsto> True)\<rparr>)"

text \<open>The callback of the timeout armed by \<open>reconnect\<close>.\<close>

definition reconnectTimeout :: "client \<Rightarrow> client" where
  "reconnectTimeout s =
     (if reconnectCount s \<ge> 2
      then pollRestfulAPI None ((stopReconnect s)\<lparr>usingRestfulAPI := True\<rparr>)
      else initWebSocket (s\<lparr>reconnectCount := reconnectCount s + 1\<rparr>))"

subsection \<open>Subscriptions\<close>

text \<open>
  \<open>subscribe\<close> returns the id, or throws what \<open>send\<close> throws; the state it leaves is
  returned in both cases. The object it creates has no \<open>shouldStop\<close> property.
\<close>

definition subscribe ::
  "json \<Rightarrow> callback_fn \<Rightarrow> predicate_fn \<Rightarrow> bool \<Rightarrow> client \<Rightarrow> (exn + nat) \<times> client" where
  "subscribe ps cb pr api s =
     (let i = idCounter s;
          m = \<lparr>params = ps, msg_id = i\<rparr>;
          sub = \<lparr>message = m, callback = cb, predicate = pr, restfulApiFunc = api\<rparr>;
          s1 = s\<lparr>idCounter := i + 1,
                 subscriptions := AList.update i sub (subscriptions s),
                 shouldStop := (shouldStop s)(i := None)\<rparr>
      in if usingRestfulAPI s1 then (Inr i, pollRestfulAPI (Some i) s1)
         else if \<not> isOpened s1 then (Inr i, s1\<lparr>messageQueue := messageQueue s1 @ [m]\<rparr>)
         else (case send m s1 of
                 (Some e, s2) \<Rightarrow> (Inl e, s2)
               | (None, s2) \<Rightarrow> (Inr i, s2)))"

definition unsubscribe :: "nat \<Rightarrow> json \<Rightarrow> client \<Rightarrow> exn option \<times> client" where
  "unsubscribe i ps s =
     (let s1 = stopPollingById i s;
          s2 = s1\<lparr>subscriptions := AList.delete i (subscriptions s1)\<rparr>
      in if isOpened s2
         then send \<lparr>params = ps, msg_id = idCounter s2\<rparr> (s2\<lparr>idCounter := idCounter s2 + 1\<rparr>)
         else (None, s2))"

text \<open>
  The \<open>forEach\<close> of \<open>onMessage\<close> over the subscriptions in insertion order: the callbacks
  invoked, and the exception that ended the iteration, if one did.
\<close>

fun dispatch :: "json \<Rightarrow> (nat \<times> subscription) list \<Rightarrow> action list \<times> json option" where
  "dispatch data [] = ([], None)"
| "dispatch data ((i, sub) # rest) =
     (case error_field data of
        Some e \<Rightarrow>
          (case callback sub e JNull of
             Inl x \<Rightarrow> ([Callback i e JNull], Some x)
           | Inr u \<Rightarrow> (let (as, r) = dispatch data rest in (Callback i e JNull # as, r)))
      | None \<Rightarrow>
          (case predicate sub data of
             Inl x \<Rightarrow> ([], Some x)
           | Inr False \<Rightarrow> dispatch data rest
           | Inr True \<Rightarrow>
               (case callback sub JNull data of
                  Inl x \<Rightarrow> ([Callback i JNull data], Some x)
                | Inr u \<Rightarrow> (let (as, r) = dispatch data rest in (Callback i JNull data # as, r)))))"

text \<open>\<open>onMessage\<close> for a frame that decodes to \<open>data\<close>; the \<open>catch\<close> logs the exception.\<close>

definition onMessage :: "json \<Rightarrow> client \<Rightarrow> client" where
  "onMessage data s =
     (case dispatch data (subscriptions s) of
        (as, None) \<Rightarrow> s\<lparr>trace := trace s @ as\<rparr>
      | (as, Some x) \<Rightarrow> s\<lparr>trace := trace s @ as @ [ConsoleLog x]\<rparr>)"

subsection \<open>Idle monitor\<close>

text \<open>\<open>now - this.lastActiveTime > this.idleTime\<close> is false while the field is undefined.\<close>

definition checkIdleTime :: "int \<Rightarrow> client \<Rightarrow> client" where
  "checkIdleTime now s =
     (if (case lastActiveTime s of None \<Rightarrow> False | Some t \<Rightarrow> now - t > idleTime s) \<and> isOpened s
      then close (s\<lparr>messageQueue := map (\<lambda>(i, sub). message sub) (subscriptions s),
                    isBehind := True\<rparr>)
      else s)"

definition handleVisibilityChange :: "bool \<Rightarrow> int \<Rightarrow> client \<Rightarrow> client" where
  "handleVisibilityChange hidden now s =
     (if hidden then checkIdleTime now s
      else (let s1 = s\<lparr>lastActiveTime := Some now\<rparr>
            in if \<not> isOpened s1 then reconnect s1 else s1))"

subsection \<open>Construction and events\<close>

definition new_client :: "string \<Rightarrow> client" where
  "new_client u =
     initWebSocket
       \<lparr>url = u, sockets = [], socket = None, isOpened = False, messageQueue = [],
        reconnectTimer = False, idCounter = 1, reconnectCount = 0, subscriptions = [],
        usingRestfulAPI = False, isBehind = False, idleTime = 10 * 60 * 1000,
        lastActiveTime = None, checkIdleTimer = False, shouldStop = (\<lambda>i. None),
        pollers = [], trace = []\<rparr>"

datatype event =
    SockOpen nat int
  | SockMessage nat json
  | SockClose nat
  | SockError nat
  | ReconnectTimer
  | IdleTick int
  | Visibility bool int
  | Subscribe json callback_fn predicate_fn bool
  | Unsubscribe nat json
  | PollResolve nat json
  | PollReject nat json
  | PollWake nat

definition poller_phase :: "client \<Rightarrow> nat \<Rightarrow> phase option" where
  "poller_phase s k = (if k < length (pollers s) then Some (phase (pollers s ! k)) else None)"

text \<open>
  An event runs its handler when the environment can produce it: a socket opens once, from
  connecting; delivers frames while open; closes once; a timeout fires while pending; a
  promise settles while the loop awaits it. Any other event leaves the state as it is.
  The idle check runs on a tick of its interval and on a background transition of the page,
  so a tick is accepted at any time. \<open>subscribe\<close> and \<open>unsubscribe\<close> are the calls of the
  owner of the client; what they return or throw is dropped here.
\<close>

fun step :: "event \<Rightarrow> client \<Rightarrow> client" where
  "step (SockOpen i now) s =
     (if ready_of s i = Some Connecting
      then onopen now (s\<lparr>sockets := (sockets s)[i := Opened]\<rparr>) else s)"
| "step (SockMessage i data) s =
     (if ready_of s i = Some Opened then onMessage data s else s)"
| "step (SockClose i) s =
     (if ready_of s i \<noteq> None \<and> ready_of s i \<noteq> Some Closed
      then onclose (s\<lparr>sockets := (sockets s)[i := Closed]\<rparr>) else s)"
| "step (SockError i) s =
     (if ready_of s i \<noteq> None \<and> ready_of s i \<noteq> Some Closed then onerror s else s)"
| "step ReconnectTimer s =
     (if reconnectTimer s then reconnectTimeout (s\<lparr>reconnectTimer := False\<rparr>) else s)"
| "step (IdleTick now) s = checkIdleTime now s"
| "step (Visibility hidden now) s = handleVisibilityChange hidden now s"
| "step (Subscribe ps cb pr api) s = snd (subscribe ps cb pr api s)"
| "step (Unsubscribe i ps) s = snd (unsubscribe i ps s)"
| "step (PollResolve k response) s =
     (if poller_phase s k = Some InFlight then pollResolved k response s else s)"
| "step (PollReject k e) s =
     (if poller_phase s k = Some InFlight then pollCatch k e s else s)"
| "step (PollWake k) s =
     (if poller_phase s k = Some Sleeping then pollWake k s else s)"

fun run :: "event list \<Rightarrow> client \<Rightarrow> client" where
  "run [] s = s"
| "run (e # es) s = run es (step e s)"

section \<open>Notions the properties are stated with\<close>

subsection \<open>Kinds of events, and the ids a run hands out\<close>

fun is_SockOpen :: "event \<Rightarrow> bool" where
  "is_SockOpen (SockOpen j now) = True"
| "is_SockOpen _ = False"



text \<open>The ids the \<open>subscribe\<close> calls of a run return, in call order.\<close>

fun subscribe_ids :: "event list \<Rightarrow> client \<Rightarrow> nat list" where
  "subscribe_ids [] s = []"
| "subscribe_ids (Subscribe ps cb pr api # es) s =
     (case fst (subscribe ps cb pr api s) of
        Inr i \<Rightarrow> i # subscribe_ids es (snd (subscribe ps cb pr api s))
      | Inl x \<Rightarrow> subscribe_ids es (snd (subscribe ps cb pr api s)))"
| "subscribe_ids (e # es) s = subscribe_ids es (step e s)"

subsection \<open>Invariants\<close>

text \<open>Every id in use, by a subscription or by a polling loop, was handed out already.\<close>

definition fresh_ids :: "client \<Rightarrow> bool" where
  "fresh_ids s \<longleftrightarrow>
     (\<forall>i \<in> fst ` set (subscriptions s). i < idCounter s) \<and>
     (\<forall>p \<in> set (pollers s). pid p < idCounter s)"


text \<open>
  The connection held in \<open>this.socket\<close> is lost: the socket reports an error and closes, and
  the timeout armed by \<open>reconnect\<close> fires.
\<close>

definition connection_lost :: "client \<Rightarrow> client" where
  "connection_lost s =
     (case socket s of
        None \<Rightarrow> s
      | Some j \<Rightarrow> run [SockError j, SockClose j, ReconnectTimer] s)"


subsection \<open>Counting what a subscription observes\<close>

fun is_callback_of :: "nat \<Rightarrow> action \<Rightarrow> bool" where
  "is_callback_of i (Callback j e d) = (j = i)"
| "is_callback_of i _ = False"

fun is_restcall_of :: "nat \<Rightarrow> action \<Rightarrow> bool" where
  "is_restcall_of i (RestfulCall j) = (j = i)"
| "is_restcall_of i _ = False"

fun is_send_of :: "nat \<Rightarrow> action \<Rightarrow> bool" where
  "is_send_of i (SocketSend j m) = (msg_id m = i)"
| "is_send_of i _ = False"

text \<open>How often the callback of id \<open>i\<close> was invoked, its poll function called, a request
  with id \<open>i\<close> transmitted.\<close>

definition callbacks :: "nat \<Rightarrow> action list \<Rightarrow> nat" where
  "callbacks i tr = length (filter (is_callback_of i) tr)"

definition restcalls :: "nat \<Rightarrow> action list \<Rightarrow> nat" where
  "restcalls i tr = length (filter (is_restcall_of i) tr)"

definition sends :: "nat \<Rightarrow> action list \<Rightarrow> nat" where
  "sends i tr = length (filter (is_send_of i) tr)"

text \<open>The poll requests of id \<open>i\<close> that are in flight.\<close>

definition inflight :: "nat \<Rightarrow> poller list \<Rightarrow> nat" where
  "inflight i ps = length (filter (\<lambda>p. pid p = i \<and> phase p = InFlight) ps)"

fun is_settle :: "event \<Rightarrow> bool" where
  "is_settle (PollResolve k response) = True"
| "is_settle (PollReject k e) = True"
| "is_settle _ = False"

fun is_poll_event :: "event \<Rightarrow> bool" where
  "is_poll_event (PollResolve k r) = True"
| "is_poll_event (PollReject k e) = True"
| "is_poll_event (PollWake k) = True"
| "is_poll_event _ = False"

fun is_SockMessage :: "event \<Rightarrow> bool" where
  "is_SockMessage (SockMessage j d) = True"
| "is_SockMessage _ = False"

text \<open>Id \<open>i\<close> is not registered with a poll function.\<close>

definition no_api :: "nat \<Rightarrow> client \<Rightarrow> bool" where
  "no_api i s =
     (case map_of (subscriptions s) i of None \<Rightarrow> True | Some sub \<Rightarrow> \<not> restfulApiFunc sub)"

text \<open>The state of id \<open>i\<close> after its \<open>unsubscribe\<close>: handed out, not registered, told to stop.\<close>

definition halted :: "nat \<Rightarrow> client \<Rightarrow> bool" where
  "halted i s \<longleftrightarrow>
     fresh_ids s \<and> i < idCounter s \<and> map_of (subscriptions s) i = None \<and>
     shouldStop s i = Some True"



subsection \<open>Sample subscribers and states\<close>

definition cb_returns :: callback_fn where "cb_returns e d = Inr ()"
definition cb_throws :: callback_fn where "cb_throws e d = Inl (JStr ''boom'')"
definition matches_all :: predicate_fn where "matches_all d = Inr True"
definition matches_none :: predicate_fn where "matches_none d = Inr False"

definition err_frame :: json where
  "err_frame = JObj [(''error'', JStr ''rate limit'')]"

definition tick_frame :: json where
  "tick_frame = JObj [(''stream'', JStr ''btcusdt@ticker'')]"

definition s_new :: client where
  "s_new = new_client ''wss://stream''"

text \<open>Connected, with a subscriber that matches nothing and one that matches everything.\<close>

definition s_two :: client where
  "s_two = run [SockOpen 0 0,
                Subscribe (JStr ''a'') cb_returns matches_none False,
                Subscribe (JStr ''b'') cb_returns matches_all False] s_new"

text \<open>Connected, with three subscribers that match everything; the second one throws.\<close>

definition s_three :: client where
  "s_three = run [SockOpen 0 0,
                  Subscribe (JStr ''a'') cb_returns matches_all False,
                  Subscribe (JStr ''b'') cb_throws matches_all False,
                  Subscribe (JStr ''c'') cb_returns matches_all False] s_new"

text \<open>Degraded after three lost connection attempts; and then polling for a subscription.\<close>

definition s_degraded :: client where
  "s_degraded = connection_lost (connection_lost (connection_lost s_new))"

definition s_polling :: client where
  "s_polling = snd (subscribe (JStr ''a'') cb_returns matches_all True s_degraded)"




section \<open>Lemmas about the handlers\<close>

subsection \<open>The flush of the pending queue\<close>

lemma ready_of_upd [simp]:
  "ready_of (s\<lparr>messageQueue := q\<rparr>) i = ready_of s i"
  "ready_of (s\<lparr>trace := tr\<rparr>) i = ready_of s i"
  by (simp_all add: ready_of_def)

lemma sendCachedLoop_closed:
  "sendCachedLoop s =
     (case messageQueue s of
        [] \<Rightarrow> (None, s)
      | m # ms \<Rightarrow>
          (case socket s of
             None \<Rightarrow> (Some TypeError, s\<lparr>messageQueue := ms\<rparr>)
           | Some i \<Rightarrow>
               (case ready_of s i of
                  Some Connecting \<Rightarrow> (Some InvalidStateError, s\<lparr>messageQueue := ms\<rparr>)
                | Some Opened \<Rightarrow>
                    (None, s\<lparr>messageQueue := [],
                             trace := trace s @ map (SocketSend i) (m # ms)\<rparr>)
                | _ \<Rightarrow> (None, s\<lparr>messageQueue := []\<rparr>))))"
proof (induction "messageQueue s" arbitrary: s)
  case Nil
  then show ?case by (subst sendCachedLoop.simps) (simp split: list.splits)
next
  case (Cons m ms)
  from Cons.hyps(2) have q: "messageQueue s = m # ms" by simp
  let ?t = "s\<lparr>messageQueue := ms\<rparr>"
  show ?case
  proof (cases "socket s")
    case None
    then show ?thesis using q
      by (subst sendCachedLoop.simps) (simp add: send_def)
  next
    case (Some i)
    show ?thesis
    proof (cases "ready_of s i")
      case None
      then show ?thesis using q Some Cons.hyps(1)[of "?t"]
        by (subst sendCachedLoop.simps) (simp add: send_def split: list.splits)
    next
      case (Some r)
      then show ?thesis using q \<open>socket s = Some i\<close> Cons.hyps(1)[of "?t"]
          Cons.hyps(1)[of "emit (SocketSend i m) ?t"]
        by (subst sendCachedLoop.simps)
           (cases r; simp add: send_def emit_def split: list.splits)
    qed
  qed
qed

subsection \<open>Unfolding the handlers\<close>

lemmas sample_defs = cb_returns_def cb_throws_def matches_all_def matches_none_def
  err_frame_def tick_frame_def

lemmas eval_defs =
  ready_of_def emit_def send_def close_def stopReconnect_def
  sendCachedMessages_def sendCachedLoop_closed initWebSocket_def onopen_def reconnect_def
  onclose_def onerror_def pollLoopHead_def pollRestfulAPIForSubscription_def
  pollRestfulAPI_def set_phase_def pollCatch_def pollResolved_def pollWake_def
  stopPollingById_def reconnectTimeout_def subscribe_def unsubscribe_def onMessage_def
  checkIdleTime_def handleVisibilityChange_def new_client_def poller_phase_def Let_def

lemmas step_defs =
  ready_of_def emit_def send_def close_def stopReconnect_def
  sendCachedMessages_def sendCachedLoop_closed initWebSocket_def onopen_def reconnect_def
  onclose_def onerror_def set_phase_def pollLoopHead_def
  pollCatch_def pollResolved_def pollWake_def stopPollingById_def reconnectTimeout_def
  subscribe_def unsubscribe_def onMessage_def checkIdleTime_def handleVisibilityChange_def
  poller_phase_def Let_def

lemmas step_splits =
  if_splits option.splits list.splits ready.splits sum.splits bool.splits prod.splits

subsection \<open>The sample states\<close>

lemma s_new_eq:
  "s_new = \<lparr>url = ''wss://stream'', sockets = [Connecting], socket = Some 0, isOpened = False,
        messageQueue = [], reconnectTimer = False, idCounter = 1, reconnectCount = 0,
        subscriptions = [], usingRestfulAPI = False, isBehind = False, idleTime = 600000,
        lastActiveTime = None, checkIdleTimer = False, shouldStop = (\<lambda>i. None),
        pollers = [], trace = [NewWebSocket 0]\<rparr>"
  by (simp add: s_new_def new_client_def initWebSocket_def emit_def)

lemma s_two_fields:
  "subscriptions s_two =
     [(1, \<lparr>message = \<lparr>params = JStr ''a'', msg_id = 1\<rparr>, callback = cb_returns,
            predicate = matches_none, restfulApiFunc = False\<rparr>),
      (2, \<lparr>message = \<lparr>params = JStr ''b'', msg_id = 2\<rparr>, callback = cb_returns,
            predicate = matches_all, restfulApiFunc = False\<rparr>)]"
  "trace s_two = [NewWebSocket 0, SocketSend 0 \<lparr>params = JStr ''a'', msg_id = 1\<rparr>,
                  SocketSend 0 \<lparr>params = JStr ''b'', msg_id = 2\<rparr>]"
  "isOpened s_two" "socket s_two = Some 0" "sockets s_two = [Opened]"
  "lastActiveTime s_two = Some 0" "idleTime s_two = 600000" "\<not> usingRestfulAPI s_two"
  "idCounter s_two = 3" "messageQueue s_two = []" "reconnectTimer s_two = False"
  by (simp_all add: s_two_def s_new_eq eval_defs)

subsection \<open>Dispatch of an inbound frame\<close>

lemma dispatch_append:
  "dispatch data (pre @ rest) =
     (case dispatch data pre of
        (as, None) \<Rightarrow> (let (bs, r) = dispatch data rest in (as @ bs, r))
      | (as, Some x) \<Rightarrow> (as, Some x))"
  by (induction pre) (auto split: option.splits sum.splits bool.splits prod.splits)

lemma dispatch_error_all:
  "error_field data = Some e \<Longrightarrow>
   \<forall>(i, sub) \<in> set subs. callback sub e JNull = Inr () \<Longrightarrow>
   dispatch data subs = (map (\<lambda>(i, sub). Callback i e JNull) subs, None)"
  by (induction subs) auto

lemma dispatch_plain_matching:
  "error_field data = None \<Longrightarrow>
   \<forall>(i, sub) \<in> set subs. predicate sub data = Inr False \<or>
      (predicate sub data = Inr True \<and> callback sub JNull data = Inr ()) \<Longrightarrow>
   dispatch data subs =
     (map (\<lambda>(i, sub). Callback i JNull data)
        (filter (\<lambda>(i, sub). predicate sub data = Inr True) subs), None)"
  by (induction subs) auto

lemma dispatch_only:
  "a \<in> set (fst (dispatch data subs)) \<Longrightarrow>
   (case error_field data of
      Some e \<Rightarrow> \<exists>i sub. (i, sub) \<in> set subs \<and> a = Callback i e JNull
    | None \<Rightarrow> \<exists>i sub. (i, sub) \<in> set subs \<and> predicate sub data = Inr True \<and>
               a = Callback i JNull data)"
proof (induction subs)
  case Nil
  then show ?case by simp
next
  case (Cons p subs)
  obtain i sub where p: "p = (i, sub)" by (cases p)
  show ?case
  proof (cases "error_field data")
    case None
    then show ?thesis using Cons p
      by (auto split: sum.splits bool.splits prod.splits)
  next
    case (Some e)
    then show ?thesis using Cons p
      by (auto split: sum.splits bool.splits prod.splits)
  qed
qed


subsection \<open>What starting the polling loops leaves alone\<close>

lemma pollFor_eq:
  "pollRestfulAPIForSubscription i s =
     s\<lparr>shouldStop := shouldStop (pollRestfulAPIForSubscription i s),
       pollers := pollers (pollRestfulAPIForSubscription i s),
       trace := trace (pollRestfulAPIForSubscription i s)\<rparr>"
  by (simp add: pollRestfulAPIForSubscription_def pollLoopHead_def emit_def Let_def
      split: option.splits)

lemma pollFor_shape:
  "\<exists>sh ps tr. pollRestfulAPIForSubscription i s = s\<lparr>shouldStop := sh, pollers := ps, trace := tr\<rparr>"
  by (intro exI) (rule pollFor_eq)

lemma pollAll_shape:
  "\<exists>sh ps tr. fold pollRestfulAPIForSubscription is s = s\<lparr>shouldStop := sh, pollers := ps, trace := tr\<rparr>"
proof (induction "is" arbitrary: s)
  case Nil
  have "fold pollRestfulAPIForSubscription [] s = s\<lparr>shouldStop := shouldStop s, pollers := pollers s, trace := trace s\<rparr>" by simp
  then show ?case by blast
next
  case (Cons i "is")
  obtain sh ps tr where 1: "pollRestfulAPIForSubscription i s = s\<lparr>shouldStop := sh, pollers := ps, trace := tr\<rparr>"
    using pollFor_shape by blast
  obtain sh' ps' tr' where 2: "fold pollRestfulAPIForSubscription is (pollRestfulAPIForSubscription i s)
      = (pollRestfulAPIForSubscription i s)\<lparr>shouldStop := sh', pollers := ps', trace := tr'\<rparr>"
    using Cons.IH by blast
  have "fold pollRestfulAPIForSubscription (i # is) s = s\<lparr>shouldStop := sh', pollers := ps', trace := tr'\<rparr>"
    using 1 2 by simp
  then show ?case by blast
qed

lemma pollRestfulAPI_shape:
  "\<exists>sh ps tr. pollRestfulAPI io s = s\<lparr>shouldStop := sh, pollers := ps, trace := tr\<rparr>"
proof (cases "\<exists>i. io = Some i \<and> i \<noteq> 0")
  case True
  then obtain i where "io = Some i" "i \<noteq> 0" by blast
  then have "pollRestfulAPI io s = pollRestfulAPIForSubscription i s"
    by (simp add: pollRestfulAPI_def)
  then show ?thesis using pollFor_shape[of i s] by simp
next
  case False
  then have "pollRestfulAPI io s = fold pollRestfulAPIForSubscription (map fst (subscriptions s)) s"
    by (cases io) (auto simp: pollRestfulAPI_def)
  then show ?thesis using pollAll_shape[of "map fst (subscriptions s)" s] by simp
qed

lemma pollRestfulAPI_fields [simp]:
  "url (pollRestfulAPI io s) = url s"
  "sockets (pollRestfulAPI io s) = sockets s"
  "socket (pollRestfulAPI io s) = socket s"
  "isOpened (pollRestfulAPI io s) = isOpened s"
  "messageQueue (pollRestfulAPI io s) = messageQueue s"
  "reconnectTimer (pollRestfulAPI io s) = reconnectTimer s"
  "idCounter (pollRestfulAPI io s) = idCounter s"
  "reconnectCount (pollRestfulAPI io s) = reconnectCount s"
  "subscriptions (pollRestfulAPI io s) = subscriptions s"
  "usingRestfulAPI (pollRestfulAPI io s) = usingRestfulAPI s"
  "isBehind (pollRestfulAPI io s) = isBehind s"
  "idleTime (pollRestfulAPI io s) = idleTime s"
  "lastActiveTime (pollRestfulAPI io s) = lastActiveTime s"
  "checkIdleTimer (pollRestfulAPI io s) = checkIdleTimer s"
proof -
  obtain sh ps tr where "pollRestfulAPI io s = s\<lparr>shouldStop := sh, pollers := ps, trace := tr\<rparr>"
    using pollRestfulAPI_shape by blast
  then show
  "url (pollRestfulAPI io s) = url s"
  "sockets (pollRestfulAPI io s) = sockets s"
  "socket (pollRestfulAPI io s) = socket s"
  "isOpened (pollRestfulAPI io s) = isOpened s"
  "messageQueue (pollRestfulAPI io s) = messageQueue s"
  "reconnectTimer (pollRestfulAPI io s) = reconnectTimer s"
  "idCounter (pollRestfulAPI io s) = idCounter s"
  "reconnectCount (pollRestfulAPI io s) = reconnectCount s"
  "subscriptions (pollRestfulAPI io s) = subscriptions s"
  "usingRestfulAPI (pollRestfulAPI io s) = usingRestfulAPI s"
  "isBehind (pollRestfulAPI io s) = isBehind s"
  "idleTime (pollRestfulAPI io s) = idleTime s"
  "lastActiveTime (pollRestfulAPI io s) = lastActiveTime s"
  "checkIdleTimer (pollRestfulAPI io s) = checkIdleTimer s"
    by simp_all
qed

lemma ready_of_pollRestfulAPI [simp]: "ready_of (pollRestfulAPI io s) j = ready_of s j"
  by (simp add: ready_of_def)

lemma subscribe_id:
  "fst (subscribe ps cb pr api s) = Inr i \<Longrightarrow> i = idCounter s"
  by (auto simp: subscribe_def Let_def send_def split: step_splits)

lemma subscribe_idCounter:
  "idCounter (snd (subscribe ps cb pr api s)) = Suc (idCounter s)"
  by (auto simp: subscribe_def Let_def send_def emit_def split: step_splits)

lemma idCounter_step: "idCounter s \<le> idCounter (step e s)"
proof (cases e)
  case (Subscribe ps cb pr api)
  then show ?thesis by (simp add: subscribe_idCounter)
qed (auto simp: step_defs split: step_splits)

lemma subscribe_ids_other:
  "(\<And>ps cb pr api. e \<noteq> Subscribe ps cb pr api) \<Longrightarrow>
   subscribe_ids (e # es) s = subscribe_ids es (step e s)"
  by (cases e) auto

lemma subscribe_ids_ge:
  "x \<in> set (subscribe_ids es s) \<Longrightarrow> idCounter s \<le> x"
proof (induction es arbitrary: s)
  case Nil
  then show ?case by simp
next
  case (Cons e es)
  show ?case
  proof (cases "\<exists>ps cb pr api. e = Subscribe ps cb pr api")
    case True
    then obtain ps cb pr api where Subscribe: "e = Subscribe ps cb pr api" by blast
    show ?thesis
    proof (cases "fst (subscribe ps cb pr api s)")
      case (Inl x')
      then have "x \<in> set (subscribe_ids es (snd (subscribe ps cb pr api s)))"
        using Cons.prems Subscribe by simp
      from Cons.IH[OF this] show ?thesis by (simp add: subscribe_idCounter)
    next
      case (Inr i)
      then have "x = i \<or> x \<in> set (subscribe_ids es (snd (subscribe ps cb pr api s)))"
        using Cons.prems Subscribe by simp
      then show ?thesis
      proof
        assume "x = i" then show ?thesis using subscribe_id[OF Inr] by simp
      next
        assume "x \<in> set (subscribe_ids es (snd (subscribe ps cb pr api s)))"
        from Cons.IH[OF this] show ?thesis by (simp add: subscribe_idCounter)
      qed
    qed
  next
    case False
    then have "x \<in> set (subscribe_ids es (step e s))"
      using Cons.prems subscribe_ids_other[of e es s] by auto
    from Cons.IH[OF this] idCounter_step[of s e] show ?thesis by simp
  qed
qed

lemma closed_step:
  "\<not> isOpened s \<Longrightarrow> \<not> is_SockOpen e \<Longrightarrow>
   \<not> isOpened (step e s) \<and> (\<exists>ms. messageQueue (step e s) = messageQueue s @ ms)"
  by (cases e) (auto simp: step_defs split: step_splits)

lemma closed_run:
  "\<not> isOpened s \<Longrightarrow> \<forall>e \<in> set es. \<not> is_SockOpen e \<Longrightarrow>
   \<not> isOpened (run es s) \<and> (\<exists>ms. messageQueue (run es s) = messageQueue s @ ms)"
proof (induction es arbitrary: s)
  case Nil
  then show ?case by simp
next
  case (Cons e es)
  from closed_step[of s e] Cons.prems obtain ms where
    1: "\<not> isOpened (step e s)" "messageQueue (step e s) = messageQueue s @ ms"
    by auto
  from Cons.IH[OF 1(1)] Cons.prems obtain ms' where
    2: "\<not> isOpened (run es (step e s))"
       "messageQueue (run es (step e s)) = messageQueue (step e s) @ ms'"
    by auto
  show ?case using 1 2 by simp
qed

subsection \<open>Ids are fresh\<close>


lemma keys_update: "fst ` set (AList.update k v al) = insert k (fst ` set al)"
  by (induction al) auto

lemma keys_delete: "fst ` set (AList.delete k al) = fst ` set al - {k}"
  by (induction al) auto

lemma pollFor_pollers:
  "pollers (pollRestfulAPIForSubscription i s) = pollers s \<or>
   (\<exists>p. pollers (pollRestfulAPIForSubscription i s) = pollers s @ [p] \<and> pid p = i \<and>
        i \<in> fst ` set (subscriptions s))"
proof (cases "map_of (subscriptions s) i")
  case None
  then show ?thesis by (simp add: pollRestfulAPIForSubscription_def)
next
  case (Some sub)
  then have "i \<in> fst ` set (subscriptions s)"
    by (metis domI dom_map_of_conv_image_fst)
  then show ?thesis using Some
    by (simp add: pollRestfulAPIForSubscription_def pollLoopHead_def emit_def Let_def
        split: option.splits)
qed

lemma pollFor_subscriptions [simp]:
  "subscriptions (pollRestfulAPIForSubscription i s) = subscriptions s"
  "idCounter (pollRestfulAPIForSubscription i s) = idCounter s"
  by (subst pollFor_eq, simp)+

lemma pollFor_fresh:
  assumes "fresh_ids s" shows "fresh_ids (pollRestfulAPIForSubscription i s)"
proof -
  from pollFor_pollers[of i s] show ?thesis
  proof
    assume "pollers (pollRestfulAPIForSubscription i s) = pollers s"
    then show ?thesis using assms by (simp add: fresh_ids_def)
  next
    assume "\<exists>p. pollers (pollRestfulAPIForSubscription i s) = pollers s @ [p] \<and> pid p = i \<and>
        i \<in> fst ` set (subscriptions s)"
    then obtain p where "pollers (pollRestfulAPIForSubscription i s) = pollers s @ [p]"
      "pid p = i" "i \<in> fst ` set (subscriptions s)" by blast
    then show ?thesis using assms by (auto simp: fresh_ids_def)
  qed
qed

lemma pollAll_fresh:
  "fresh_ids s \<Longrightarrow> fresh_ids (fold pollRestfulAPIForSubscription is s)"
  by (induction "is" arbitrary: s) (auto simp: pollFor_fresh)

lemma pollRestfulAPI_fresh:
  "fresh_ids s \<Longrightarrow> fresh_ids (pollRestfulAPI io s)"
  by (auto simp: pollRestfulAPI_def pollFor_fresh pollAll_fresh split: option.splits)

lemma fresh_ids_cong:
  "fresh_ids s \<Longrightarrow> fst ` set (subscriptions t) \<subseteq> fst ` set (subscriptions s) \<Longrightarrow>
   set (map pid (pollers t)) \<subseteq> set (map pid (pollers s)) \<Longrightarrow>
   idCounter s \<le> idCounter t \<Longrightarrow> fresh_ids t"
  unfolding fresh_ids_def by (simp add: subset_iff image_iff) (metis order_less_le_trans)

lemma pid_set_phase:
  "map pid (xs[k := (xs ! k)\<lparr>phase := ph\<rparr>]) = map pid xs"
  by (simp add: map_update list_update_same_conv[THEN iffD2] split: if_splits)
     (metis length_map list_update_beyond list_update_id not_le_imp_less nth_map)

lemma fresh_ids_step: "fresh_ids s \<Longrightarrow> fresh_ids (step e s)"
proof (cases e)
  case (Subscribe ps cb pr api)
  assume f: "fresh_ids s"
  let ?s1 = "s\<lparr>idCounter := idCounter s + 1,
                 subscriptions := AList.update (idCounter s)
                    \<lparr>message = \<lparr>params = ps, msg_id = idCounter s\<rparr>, callback = cb,
                      predicate = pr, restfulApiFunc = api\<rparr> (subscriptions s),
                 shouldStop := (shouldStop s)(idCounter s := None)\<rparr>"
  have 1: "fresh_ids ?s1" using f
    by (auto simp: fresh_ids_def keys_update less_Suc_eq)
  then have 2: "fresh_ids (pollRestfulAPI (Some (idCounter s)) ?s1)"
    by (rule pollRestfulAPI_fresh)
  have 3: "fresh_ids (?s1\<lparr>messageQueue := q\<rparr>)" "fresh_ids (?s1\<lparr>trace := tr\<rparr>)" for q tr
    using 1 by (simp_all add: fresh_ids_def)
  show ?thesis using 1 2 3 Subscribe
    by (simp add: subscribe_def Let_def send_def emit_def
        split: option.splits ready.splits)
next
  case (Unsubscribe i ps)
  assume f: "fresh_ids s"
  show ?thesis unfolding Unsubscribe
    by (rule fresh_ids_cong[OF f])
       (auto simp: unsubscribe_def stopPollingById_def Let_def send_def emit_def
         keys_delete split: option.splits ready.splits)
next
  case ReconnectTimer
  assume f: "fresh_ids s"
  have "fresh_ids ((stopReconnect (s\<lparr>reconnectTimer := False\<rparr>))\<lparr>usingRestfulAPI := True\<rparr>)"
    using f by (simp add: fresh_ids_def stopReconnect_def)
  from pollRestfulAPI_fresh[OF this, of None] f show ?thesis using ReconnectTimer
    by (auto simp: reconnectTimeout_def initWebSocket_def emit_def fresh_ids_def)
next
  case (PollResolve k r)
  assume f: "fresh_ids s"
  show ?thesis unfolding PollResolve
    by (rule fresh_ids_cong[OF f])
       (auto simp: step_defs pid_set_phase simp del: set_map split: step_splits)
next
  case (PollReject k r)
  assume f: "fresh_ids s"
  show ?thesis unfolding PollReject
    by (rule fresh_ids_cong[OF f])
       (auto simp: step_defs pid_set_phase simp del: set_map split: step_splits)
next
  case (PollWake k)
  assume f: "fresh_ids s"
  show ?thesis unfolding PollWake
    by (rule fresh_ids_cong[OF f])
       (auto simp: step_defs pid_set_phase simp del: set_map split: step_splits)
next
  case (SockOpen j now)
  assume f: "fresh_ids s"
  show ?thesis unfolding SockOpen
    by (rule fresh_ids_cong[OF f]) (auto simp: step_defs split: step_splits)
next
  case (SockMessage j d)
  assume f: "fresh_ids s"
  show ?thesis unfolding SockMessage
    by (rule fresh_ids_cong[OF f]) (auto simp: step_defs split: step_splits)
next
  case (SockClose j)
  assume f: "fresh_ids s"
  show ?thesis unfolding SockClose
    by (rule fresh_ids_cong[OF f]) (auto simp: step_defs split: step_splits)
next
  case (SockError j)
  assume f: "fresh_ids s"
  show ?thesis unfolding SockError
    by (rule fresh_ids_cong[OF f]) (auto simp: step_defs split: step_splits)
next
  case (IdleTick now)
  assume f: "fresh_ids s"
  show ?thesis unfolding IdleTick
    by (rule fresh_ids_cong[OF f]) (auto simp: step_defs split: step_splits)
next
  case (Visibility h now)
  assume f: "fresh_ids s"
  show ?thesis unfolding Visibility
    by (rule fresh_ids_cong[OF f]) (auto simp: step_defs split: step_splits)
qed

lemma fresh_ids_run: "fresh_ids s \<Longrightarrow> fresh_ids (run es s)"
  by (induction es arbitrary: s) (auto simp: fresh_ids_step)

lemma fresh_ids_new: "fresh_ids (new_client u)"
  by (simp add: fresh_ids_def new_client_def initWebSocket_def emit_def)

text \<open>Every state a client can reach has fresh ids.\<close>

lemma fresh_ids_reachable: "fresh_ids (run es (new_client u))"
  by (rule fresh_ids_run) (rule fresh_ids_new)




lemma sendCachedLoop_trace:
  "trace (snd (sendCachedLoop u)) = trace u \<or>
   (\<exists>k. trace (snd (sendCachedLoop u)) = trace u @ map (SocketSend k) (messageQueue u))"
  by (auto simp: sendCachedLoop_closed split: list.splits option.splits ready.splits)

lemma open_flush_sends:
  "subscriptions (step (SockOpen j now) t) = subscriptions t \<and>
   (\<exists>k ms. trace (step (SockOpen j now) t) = trace t @ map (SocketSend k) ms \<and>
      set ms \<subseteq> set (messageQueue t))"
proof -
  have e: "trace t = trace t @ map (SocketSend 0) []" by simp
  have "\<exists>k ms. trace (step (SockOpen j now) t) = trace t @ map (SocketSend k) ms \<and>
      set ms \<subseteq> set (messageQueue t)"
  proof (cases "ready_of t j = Some Connecting")
    case False
    then show ?thesis by (intro exI[of _ 0] exI[of _ "[]"]) simp
  next
    case True
    let ?u = "t\<lparr>sockets := (sockets t)[j := Opened], lastActiveTime := Some now,
               isOpened := True, isBehind := False, usingRestfulAPI := False,
               reconnectCount := 0\<rparr>"
    have q: "messageQueue ?u = messageQueue t" "trace ?u = trace t" by simp_all
    consider (a) "trace (snd (sendCachedLoop ?u)) = trace ?u"
      | (b) k where "trace (snd (sendCachedLoop ?u)) = trace ?u @ map (SocketSend k) (messageQueue ?u)"
      using sendCachedLoop_trace[of ?u] by blast
    then show ?thesis
    proof cases
      case a
      have "trace (step (SockOpen j now) t) = trace t" using True a
        by (auto simp: onopen_def sendCachedMessages_def stopReconnect_def split: prod.splits option.splits)
      then show ?thesis by (intro exI[of _ 0] exI[of _ "[]"]) simp
    next
      case b
      have "trace (step (SockOpen j now) t) = trace t @ map (SocketSend k) (messageQueue t)"
        using True b
        by (auto simp: onopen_def sendCachedMessages_def stopReconnect_def split: prod.splits option.splits)
      then show ?thesis by (intro exI[of _ k] exI[of _ "messageQueue t"]) simp
    qed
  qed
  moreover have "subscriptions (step (SockOpen j now) t) = subscriptions t"
    by (auto simp: step_defs split: step_splits)
  ultimately show ?thesis by blast
qed

subsection \<open>Losing the connection, and the Degraded mode\<close>








subsection \<open>Counting\<close>

lemma callbacks_simps [simp]:
  "callbacks i [] = 0"
  "callbacks i (tr @ tr') = callbacks i tr + callbacks i tr'"
  "callbacks i (a # tr) = (if is_callback_of i a then 1 else 0) + callbacks i tr"
  by (simp_all add: callbacks_def)

lemma restcalls_simps [simp]:
  "restcalls i [] = 0"
  "restcalls i (tr @ tr') = restcalls i tr + restcalls i tr'"
  "restcalls i (a # tr) = (if is_restcall_of i a then 1 else 0) + restcalls i tr"
  by (simp_all add: restcalls_def)

lemma sends_simps [simp]:
  "sends i [] = 0"
  "sends i (tr @ tr') = sends i tr + sends i tr'"
  "sends i (a # tr) = (if is_send_of i a then 1 else 0) + sends i tr"
  by (simp_all add: sends_def)

lemma inflight_simps [simp]:
  "inflight i [] = 0"
  "inflight i (ps @ ps') = inflight i ps + inflight i ps'"
  "inflight i (p # ps) = (if pid p = i \<and> phase p = InFlight then 1 else 0) + inflight i ps"
  by (simp_all add: inflight_def)

lemma map_SocketSend_counts [simp]:
  "callbacks i (map (SocketSend k) ms) = 0"
  "restcalls i (map (SocketSend k) ms) = 0"
  by (induction ms) simp_all

lemma count_update:
  "k < length xs \<Longrightarrow>
   length (filter P (xs[k := y])) + (if P (xs ! k) then 1 else 0) =
   length (filter P xs) + (if P y then 1 else 0)"
proof (induction xs arbitrary: k)
  case Nil
  then show ?case by simp
next
  case (Cons x xs)
  show ?case
  proof (cases k)
    case 0
    then show ?thesis by simp
  next
    case (Suc m)
    then show ?thesis using Cons.IH[of m] Cons.prems by simp
  qed
qed

lemma inflight_update:
  "k < length ps \<Longrightarrow>
   inflight i (ps[k := (ps ! k)\<lparr>phase := ph\<rparr>]) +
     (if pid (ps ! k) = i \<and> phase (ps ! k) = InFlight then 1 else 0) =
   inflight i ps + (if pid (ps ! k) = i \<and> ph = InFlight then 1 else 0)"
  unfolding inflight_def
  using count_update[of k ps "\<lambda>p. pid p = i \<and> phase p = InFlight" "(ps ! k)\<lparr>phase := ph\<rparr>"]
  by simp

lemma dispatch_keys:
  "a \<in> set (fst (dispatch data subs)) \<Longrightarrow> \<exists>j e d sub. a = Callback j e d \<and> (j, sub) \<in> set subs"
  using dispatch_only[of a data subs]
  by (cases "error_field data") auto

lemma dispatch_callbacks:
  assumes "map_of subs i = None"
  shows "callbacks i (fst (dispatch data subs)) = 0"
    and "restcalls i (fst (dispatch data subs)) = 0"
proof -
  have n: "(i, sub) \<notin> set subs" for sub
    using assms by (metis map_of_eq_None_iff fst_conv image_eqI)
  have "\<forall>a \<in> set (fst (dispatch data subs)). \<not> is_callback_of i a \<and> \<not> is_restcall_of i a"
  proof
    fix a assume "a \<in> set (fst (dispatch data subs))"
    from dispatch_keys[OF this] obtain j e d sub where "a = Callback j e d" "(j, sub) \<in> set subs"
      by blast
    then show "\<not> is_callback_of i a \<and> \<not> is_restcall_of i a" using n[of sub] by auto
  qed
  then show "callbacks i (fst (dispatch data subs)) = 0"
    "restcalls i (fst (dispatch data subs)) = 0"
    by (auto simp: callbacks_def restcalls_def filter_empty_conv)
qed

subsection \<open>Polling for other ids\<close>

lemma pollFor_other:
  "pollRestfulAPIForSubscription j s = s \<or>
   (\<exists>sh tr p. pollRestfulAPIForSubscription j s =
        s\<lparr>shouldStop := sh, pollers := pollers s @ [p], trace := tr\<rparr> \<and>
      pid p = j \<and> (\<forall>i. i \<noteq> j \<longrightarrow> sh i = shouldStop s i) \<and>
      (tr = trace s \<or> tr = trace s @ [RestfulCall j]))"
proof (cases "map_of (subscriptions s) j")
  case None
  then show ?thesis by (simp add: pollRestfulAPIForSubscription_def)
next
  case (Some sub)
  show ?thesis
  proof (cases "restfulApiFunc sub")
    case False
    then show ?thesis using Some by (simp add: pollRestfulAPIForSubscription_def)
  next
    case True
    let ?sh = "case shouldStop s j of None \<Rightarrow> (shouldStop s)(j \<mapsto> False) | Some b \<Rightarrow> shouldStop s"
    let ?go = "usingRestfulAPI s \<and> ?sh j \<noteq> Some True"
    let ?p = "\<lparr>pid = j, pcallback = callback sub, ppredicate = predicate sub,
               phase = (if ?go then InFlight else Finished)\<rparr>"
    let ?tr = "if ?go then trace s @ [RestfulCall j] else trace s"
    have "pollRestfulAPIForSubscription j s =
        s\<lparr>shouldStop := ?sh, pollers := pollers s @ [?p], trace := ?tr\<rparr>"
      using Some True
      by (cases "shouldStop s j")
         (simp_all add: pollRestfulAPIForSubscription_def pollLoopHead_def emit_def Let_def)
    moreover have "pid ?p = j" by simp
    moreover have "\<forall>i. i \<noteq> j \<longrightarrow> ?sh i = shouldStop s i"
      by (cases "shouldStop s j") simp_all
    moreover have "?tr = trace s \<or> ?tr = trace s @ [RestfulCall j]" by simp
    ultimately show ?thesis by blast
  qed
qed

lemma pollFor_quiet:
  assumes "no_api i s"
  shows "callbacks i (trace (pollRestfulAPIForSubscription j s)) = callbacks i (trace s)"
    and "restcalls i (trace (pollRestfulAPIForSubscription j s)) = restcalls i (trace s)"
    and "sends i (trace (pollRestfulAPIForSubscription j s)) = sends i (trace s)"
    and "inflight i (pollers (pollRestfulAPIForSubscription j s)) = inflight i (pollers s)"
    and "shouldStop (pollRestfulAPIForSubscription j s) i = shouldStop s i"
    and "(\<forall>p \<in> set (pollers s). pid p \<noteq> i) \<Longrightarrow>
         (\<forall>p \<in> set (pollers (pollRestfulAPIForSubscription j s)). pid p \<noteq> i)"
    and "no_api i (pollRestfulAPIForSubscription j s)"
proof -
  have *: "callbacks i (trace (pollRestfulAPIForSubscription j s)) = callbacks i (trace s) \<and>
    restcalls i (trace (pollRestfulAPIForSubscription j s)) = restcalls i (trace s) \<and>
    sends i (trace (pollRestfulAPIForSubscription j s)) = sends i (trace s) \<and>
    inflight i (pollers (pollRestfulAPIForSubscription j s)) = inflight i (pollers s) \<and>
    shouldStop (pollRestfulAPIForSubscription j s) i = shouldStop s i \<and>
    ((\<forall>p \<in> set (pollers s). pid p \<noteq> i) \<longrightarrow>
         (\<forall>p \<in> set (pollers (pollRestfulAPIForSubscription j s)). pid p \<noteq> i))"
  proof (cases "j = i")
    case True
    then have "pollRestfulAPIForSubscription j s = s"
      using assms by (auto simp: no_api_def pollRestfulAPIForSubscription_def split: option.splits)
    then show ?thesis by simp
  next
    case False
    from pollFor_other[of j s] show ?thesis
    proof
      assume "pollRestfulAPIForSubscription j s = s"
      then show ?thesis by simp
    next
      assume "\<exists>sh tr p. pollRestfulAPIForSubscription j s =
          s\<lparr>shouldStop := sh, pollers := pollers s @ [p], trace := tr\<rparr> \<and>
        pid p = j \<and> (\<forall>i. i \<noteq> j \<longrightarrow> sh i = shouldStop s i) \<and>
        (tr = trace s \<or> tr = trace s @ [RestfulCall j])"
      then obtain sh tr p where e: "pollRestfulAPIForSubscription j s =
          s\<lparr>shouldStop := sh, pollers := pollers s @ [p], trace := tr\<rparr>"
        and p: "pid p = j" and sh: "\<forall>i. i \<noteq> j \<longrightarrow> sh i = shouldStop s i"
        and tr: "tr = trace s \<or> tr = trace s @ [RestfulCall j]"
        by blast
      have shi: "sh i = shouldStop s i" using sh False by simp
      have pi: "pid p \<noteq> i" using p False by simp
      from tr show ?thesis
      proof
        assume "tr = trace s"
        then show ?thesis using pi shi by (simp add: e)
      next
        assume "tr = trace s @ [RestfulCall j]"
        then show ?thesis using pi shi False by (simp add: e)
      qed
    qed
  qed
  then show "callbacks i (trace (pollRestfulAPIForSubscription j s)) = callbacks i (trace s)"
    "restcalls i (trace (pollRestfulAPIForSubscription j s)) = restcalls i (trace s)"
    "sends i (trace (pollRestfulAPIForSubscription j s)) = sends i (trace s)"
    "inflight i (pollers (pollRestfulAPIForSubscription j s)) = inflight i (pollers s)"
    "shouldStop (pollRestfulAPIForSubscription j s) i = shouldStop s i"
    "(\<forall>p \<in> set (pollers s). pid p \<noteq> i) \<Longrightarrow>
         (\<forall>p \<in> set (pollers (pollRestfulAPIForSubscription j s)). pid p \<noteq> i)"
    by simp_all
  show "no_api i (pollRestfulAPIForSubscription j s)"
    using assms by (simp add: no_api_def)
qed

lemma pollAll_quiet:
  "no_api i s \<Longrightarrow>
   callbacks i (trace (fold pollRestfulAPIForSubscription js s)) = callbacks i (trace s) \<and>
   restcalls i (trace (fold pollRestfulAPIForSubscription js s)) = restcalls i (trace s) \<and>
   sends i (trace (fold pollRestfulAPIForSubscription js s)) = sends i (trace s) \<and>
   inflight i (pollers (fold pollRestfulAPIForSubscription js s)) = inflight i (pollers s) \<and>
   shouldStop (fold pollRestfulAPIForSubscription js s) i = shouldStop s i \<and>
   ((\<forall>p \<in> set (pollers s). pid p \<noteq> i) \<longrightarrow>
      (\<forall>p \<in> set (pollers (fold pollRestfulAPIForSubscription js s)). pid p \<noteq> i))"
proof (induction js arbitrary: s)
  case Nil
  then show ?case by simp
next
  case (Cons j js)
  let ?s1 = "pollRestfulAPIForSubscription j s"
  let ?s2 = "fold pollRestfulAPIForSubscription js ?s1"
  note q = pollFor_quiet[OF Cons.prems, of j]
  note ih = Cons.IH[OF q(7)]
  have f: "fold pollRestfulAPIForSubscription (j # js) s = ?s2" by simp
  have 1: "callbacks i (trace ?s2) = callbacks i (trace s)" using ih q(1) by presburger
  have 2: "restcalls i (trace ?s2) = restcalls i (trace s)" using ih q(2) by presburger
  have 3: "sends i (trace ?s2) = sends i (trace s)" using ih q(3) by presburger
  have 4: "inflight i (pollers ?s2) = inflight i (pollers s)" using ih q(4) by presburger
  have 5: "shouldStop ?s2 i = shouldStop s i" using ih q(5) by presburger
  have 6: "(\<forall>p \<in> set (pollers s). pid p \<noteq> i) \<longrightarrow> (\<forall>p \<in> set (pollers ?s2). pid p \<noteq> i)"
  proof
    assume "\<forall>p \<in> set (pollers s). pid p \<noteq> i"
    then have "\<forall>p \<in> set (pollers ?s1). pid p \<noteq> i" by (rule q(6))
    with ih show "\<forall>p \<in> set (pollers ?s2). pid p \<noteq> i" by blast
  qed
  show ?case unfolding f using 1 2 3 4 5 6 by blast
qed

lemma pollRestfulAPI_quiet:
  assumes "no_api i s"
  shows "callbacks i (trace (pollRestfulAPI io s)) = callbacks i (trace s)"
    and "restcalls i (trace (pollRestfulAPI io s)) = restcalls i (trace s)"
    and "sends i (trace (pollRestfulAPI io s)) = sends i (trace s)"
    and "inflight i (pollers (pollRestfulAPI io s)) = inflight i (pollers s)"
    and "shouldStop (pollRestfulAPI io s) i = shouldStop s i"
    and "(\<forall>p \<in> set (pollers s). pid p \<noteq> i) \<Longrightarrow>
         (\<forall>p \<in> set (pollers (pollRestfulAPI io s)). pid p \<noteq> i)"
proof -
  have "pollRestfulAPI io s = fold pollRestfulAPIForSubscription (map fst (subscriptions s)) s
      \<or> (\<exists>j. pollRestfulAPI io s = pollRestfulAPIForSubscription j s)"
    by (auto simp: pollRestfulAPI_def split: option.splits)
  then have *: "callbacks i (trace (pollRestfulAPI io s)) = callbacks i (trace s) \<and>
    restcalls i (trace (pollRestfulAPI io s)) = restcalls i (trace s) \<and>
    sends i (trace (pollRestfulAPI io s)) = sends i (trace s) \<and>
    inflight i (pollers (pollRestfulAPI io s)) = inflight i (pollers s) \<and>
    shouldStop (pollRestfulAPI io s) i = shouldStop s i \<and>
    ((\<forall>p \<in> set (pollers s). pid p \<noteq> i) \<longrightarrow>
         (\<forall>p \<in> set (pollers (pollRestfulAPI io s)). pid p \<noteq> i))"
  proof
    assume e: "pollRestfulAPI io s = fold pollRestfulAPIForSubscription (map fst (subscriptions s)) s"
    show ?thesis unfolding e by (rule pollAll_quiet[OF assms])
  next
    assume "\<exists>j. pollRestfulAPI io s = pollRestfulAPIForSubscription j s"
    then obtain j where e: "pollRestfulAPI io s = pollRestfulAPIForSubscription j s" by blast
    show ?thesis unfolding e using pollFor_quiet[OF assms, of j] by simp
  qed
  then show "callbacks i (trace (pollRestfulAPI io s)) = callbacks i (trace s)"
    "restcalls i (trace (pollRestfulAPI io s)) = restcalls i (trace s)"
    "sends i (trace (pollRestfulAPI io s)) = sends i (trace s)"
    "inflight i (pollers (pollRestfulAPI io s)) = inflight i (pollers s)"
    "shouldStop (pollRestfulAPI io s) i = shouldStop s i"
    "(\<forall>p \<in> set (pollers s). pid p \<noteq> i) \<Longrightarrow>
         (\<forall>p \<in> set (pollers (pollRestfulAPI io s)). pid p \<noteq> i)"
    by simp_all
qed

subsection \<open>What one event does for an id that no poll function serves\<close>

lemma map_of_update_other:
  "i \<noteq> n \<Longrightarrow> map_of (AList.update n v al) i = map_of al i"
  by (simp add: update_conv')

text \<open>The events that neither dispatch a frame nor belong to a polling loop.\<close>

lemma other_step:
  assumes na: "no_api i s" and lt: "i < idCounter s"
    and e: "\<not> is_SockMessage e" "\<not> is_poll_event e"
  shows "callbacks i (trace (step e s)) = callbacks i (trace s)"
    and "restcalls i (trace (step e s)) = restcalls i (trace s)"
    and "inflight i (pollers (step e s)) = inflight i (pollers s)"
    and "no_api i (step e s)"
    and "map_of (subscriptions s) i = None \<Longrightarrow>
           map_of (subscriptions (step e s)) i = None \<and> shouldStop (step e s) i = shouldStop s i"
    and "(\<forall>p \<in> set (pollers s). pid p \<noteq> i) \<Longrightarrow> (\<forall>p \<in> set (pollers (step e s)). pid p \<noteq> i)"
proof -
  let ?G = "callbacks i (trace (step e s)) = callbacks i (trace s) \<and>
    restcalls i (trace (step e s)) = restcalls i (trace s) \<and>
    inflight i (pollers (step e s)) = inflight i (pollers s) \<and>
    no_api i (step e s) \<and>
    (map_of (subscriptions s) i = None \<longrightarrow>
           map_of (subscriptions (step e s)) i = None \<and> shouldStop (step e s) i = shouldStop s i) \<and>
    ((\<forall>p \<in> set (pollers s). pid p \<noteq> i) \<longrightarrow> (\<forall>p \<in> set (pollers (step e s)). pid p \<noteq> i))"
  have ?G
  proof (cases e)
    case (SockOpen j now)
    obtain k ms where t: "trace (step (SockOpen j now) s) = trace s @ map (SocketSend k) ms"
      using open_flush_sends[of j now s] by blast
    have "subscriptions (step (SockOpen j now) s) = subscriptions s"
      "pollers (step (SockOpen j now) s) = pollers s"
      "shouldStop (step (SockOpen j now) s) = shouldStop s"
      by (auto simp: step_defs split: step_splits)
    then show ?thesis using na t unfolding SockOpen by (simp add: no_api_def)
  next
    case (SockMessage j d)
    then show ?thesis using e by simp
  next
    case (SockClose j)
    then show ?thesis using na by (simp add: no_api_def onclose_def reconnect_def Let_def)
  next
    case (SockError j)
    then show ?thesis using na by (simp add: no_api_def onerror_def)
  next
    case ReconnectTimer
    show ?thesis
    proof (cases "reconnectTimer s")
      case False
      then show ?thesis using ReconnectTimer na by simp
    next
      case True
      show ?thesis
      proof (cases "reconnectCount s \<ge> 2")
        case False
        then show ?thesis using ReconnectTimer True na
          by (simp add: no_api_def reconnectTimeout_def initWebSocket_def emit_def)
      next
        case c: True
        let ?s1 = "(stopReconnect (s\<lparr>reconnectTimer := False\<rparr>))\<lparr>usingRestfulAPI := True\<rparr>"
        have n1: "no_api i ?s1" using na by (simp add: no_api_def stopReconnect_def)
        have f1: "trace ?s1 = trace s" "pollers ?s1 = pollers s" "shouldStop ?s1 = shouldStop s"
          "subscriptions ?s1 = subscriptions s"
          by (simp_all add: stopReconnect_def)
        have st: "step e s = pollRestfulAPI None ?s1"
          using ReconnectTimer True c by (simp add: reconnectTimeout_def)
        note q = pollRestfulAPI_quiet[OF n1, of None]
        have "no_api i (pollRestfulAPI None ?s1)" using n1 by (simp add: no_api_def)
        then show ?thesis unfolding st using q f1 by simp
      qed
    qed
  next
    case (IdleTick now)
    then show ?thesis using na
      by (simp add: no_api_def checkIdleTime_def close_def emit_def split: option.splits ready.splits)
  next
    case (Visibility h now)
    then show ?thesis using na
      by (simp add: no_api_def handleVisibilityChange_def reconnect_def checkIdleTime_def
          close_def emit_def Let_def split: option.splits ready.splits)
  next
    case (Subscribe ps cb pr api)
    let ?n = "idCounter s"
    let ?sub = "\<lparr>message = \<lparr>params = ps, msg_id = ?n\<rparr>, callback = cb,
                      predicate = pr, restfulApiFunc = api\<rparr>"
    let ?s1 = "s\<lparr>idCounter := ?n + 1,
                 subscriptions := AList.update ?n ?sub (subscriptions s),
                 shouldStop := (shouldStop s)(?n := None)\<rparr>"
    have ne: "i \<noteq> ?n" using lt by simp
    have m1: "map_of (subscriptions ?s1) i = map_of (subscriptions s) i"
      using ne by (simp add: map_of_update_other)
    have n1: "no_api i ?s1" using na m1 by (simp add: no_api_def)
    have f1: "trace ?s1 = trace s" "pollers ?s1 = pollers s" "shouldStop ?s1 i = shouldStop s i"
      using ne by simp_all
    show ?thesis
    proof (cases "usingRestfulAPI s")
      case True
      have st: "step e s = pollRestfulAPI (Some ?n) ?s1"
        using Subscribe True by (simp add: subscribe_def Let_def)
      note q = pollRestfulAPI_quiet[OF n1, of "Some ?n"]
      have "no_api i (pollRestfulAPI (Some ?n) ?s1)" using n1 by (simp add: no_api_def)
      then show ?thesis unfolding st using q f1 m1 by simp
    next
      case False
      have g: "trace (step e s) = trace s \<or> (\<exists>k m. trace (step e s) = trace s @ [SocketSend k m])"
        "pollers (step e s) = pollers s"
        "subscriptions (step e s) = subscriptions ?s1"
        "shouldStop (step e s) = shouldStop ?s1"
        unfolding Subscribe using False
        by (auto simp: subscribe_def Let_def send_def emit_def split: option.splits ready.splits)
      have c: "callbacks i (trace (step e s)) = callbacks i (trace s)"
        "restcalls i (trace (step e s)) = restcalls i (trace s)"
        using g(1) by auto
      have "no_api i (step e s)" using n1 g(3) by (simp add: no_api_def)
      then show ?thesis using c g(2,3,4) f1 m1 by simp
    qed
  next
    case (Unsubscribe k ps)
    have g: "trace (step e s) = trace s \<or> (\<exists>j m. trace (step e s) = trace s @ [SocketSend j m])"
      "pollers (step e s) = pollers s"
      "subscriptions (step e s) = AList.delete k (subscriptions s)"
      "map_of (subscriptions s) i = None \<longrightarrow> shouldStop (step e s) i = shouldStop s i"
      unfolding Unsubscribe
      by (auto simp: unsubscribe_def stopPollingById_def Let_def send_def emit_def
          split: option.splits ready.splits)
    have c: "callbacks i (trace (step e s)) = callbacks i (trace s)"
      "restcalls i (trace (step e s)) = restcalls i (trace s)"
      using g(1) by auto
    have n2: "no_api i (step e s)"
      using na g(3) by (auto simp: no_api_def delete_conv' split: option.splits)
    have m2: "map_of (subscriptions s) i = None \<longrightarrow> map_of (subscriptions (step e s)) i = None"
      using g(3) by (simp add: delete_conv')
    show ?thesis using c n2 m2 g(2,4) by simp
  next
    case (PollResolve k r)
    then show ?thesis using e by simp
  next
    case (PollReject k r)
    then show ?thesis using e by simp
  next
    case (PollWake k)
    then show ?thesis using e by simp
  qed
  then show "callbacks i (trace (step e s)) = callbacks i (trace s)"
    and "restcalls i (trace (step e s)) = restcalls i (trace s)"
    and "inflight i (pollers (step e s)) = inflight i (pollers s)"
    and "no_api i (step e s)"
    and "map_of (subscriptions s) i = None \<Longrightarrow>
           map_of (subscriptions (step e s)) i = None \<and> shouldStop (step e s) i = shouldStop s i"
    and "(\<forall>p \<in> set (pollers s). pid p \<noteq> i) \<Longrightarrow> (\<forall>p \<in> set (pollers (step e s)). pid p \<noteq> i)"
    by simp_all
qed

subsection \<open>What the events of a polling loop do\<close>

lemma callbacks_only:
  "\<forall>a \<in> set tr. \<exists>x d. a = Callback j x d \<Longrightarrow>
   restcalls i tr = 0 \<and> sends i tr = 0 \<and> callbacks i tr \<le> length tr \<and>
   (j \<noteq> i \<longrightarrow> callbacks i tr = 0)"
  by (induction tr) auto

lemma pollCatch_fields:
  "trace (pollCatch k x s) = trace s @ [Callback (pid (pollers s ! k)) x JNull]"
  "pollers (pollCatch k x s) = (pollers s)[k := (pollers s ! k)\<lparr>phase := Sleeping\<rparr>] \<or>
   pollers (pollCatch k x s) = (pollers s)[k := (pollers s ! k)\<lparr>phase := Finished\<rparr>]"
  "subscriptions (pollCatch k x s) = subscriptions s"
  "shouldStop (pollCatch k x s) = shouldStop s"
  "sockets (pollCatch k x s) = sockets s"
  "messageQueue (pollCatch k x s) = messageQueue s"
  "isOpened (pollCatch k x s) = isOpened s"
  "usingRestfulAPI (pollCatch k x s) = usingRestfulAPI s"
  "idCounter (pollCatch k x s) = idCounter s"
  by (auto simp: pollCatch_def set_phase_def emit_def Let_def split: sum.splits)

lemma pollResolved_fields:
  "\<exists>tr. trace (pollResolved k r s) = trace s @ tr \<and> length tr \<le> 2 \<and>
        (\<forall>a \<in> set tr. \<exists>x d. a = Callback (pid (pollers s ! k)) x d)"
  "pollers (pollResolved k r s) = (pollers s)[k := (pollers s ! k)\<lparr>phase := Sleeping\<rparr>] \<or>
   pollers (pollResolved k r s) = (pollers s)[k := (pollers s ! k)\<lparr>phase := Finished\<rparr>]"
  "subscriptions (pollResolved k r s) = subscriptions s"
  "shouldStop (pollResolved k r s) = shouldStop s"
  "sockets (pollResolved k r s) = sockets s"
  "messageQueue (pollResolved k r s) = messageQueue s"
  "isOpened (pollResolved k r s) = isOpened s"
  "usingRestfulAPI (pollResolved k r s) = usingRestfulAPI s"
  "idCounter (pollResolved k r s) = idCounter s"
proof -
  let ?p = "pollers s ! k"
  let ?a = "Callback (pid ?p) JNull r"
  have "trace (pollResolved k r s) = trace s @ [] \<or>
        (\<exists>x. trace (pollResolved k r s) = trace s @ [Callback (pid ?p) x JNull]) \<or>
        trace (pollResolved k r s) = trace s @ [?a] \<or>
        (\<exists>x. trace (pollResolved k r s) = trace s @ [?a, Callback (pid ?p) x JNull])"
    by (auto simp: pollResolved_def pollCatch_def set_phase_def emit_def Let_def
        split: sum.splits bool.splits)
  then show "\<exists>tr. trace (pollResolved k r s) = trace s @ tr \<and> length tr \<le> 2 \<and>
        (\<forall>a \<in> set tr. \<exists>x d. a = Callback (pid (pollers s ! k)) x d)"
  proof (elim disjE exE)
    assume "trace (pollResolved k r s) = trace s @ []"
    then show ?thesis by (intro exI[of _ "[]"]) simp
  next
    fix x assume "trace (pollResolved k r s) = trace s @ [Callback (pid ?p) x JNull]"
    then show ?thesis by (intro exI[of _ "[Callback (pid ?p) x JNull]"]) simp
  next
    assume "trace (pollResolved k r s) = trace s @ [?a]"
    then show ?thesis by (intro exI[of _ "[?a]"]) simp
  next
    fix x assume "trace (pollResolved k r s) = trace s @ [?a, Callback (pid ?p) x JNull]"
    then show ?thesis by (intro exI[of _ "[?a, Callback (pid ?p) x JNull]"]) simp
  qed
  show "pollers (pollResolved k r s) = (pollers s)[k := (pollers s ! k)\<lparr>phase := Sleeping\<rparr>] \<or>
   pollers (pollResolved k r s) = (pollers s)[k := (pollers s ! k)\<lparr>phase := Finished\<rparr>]"
    "subscriptions (pollResolved k r s) = subscriptions s"
    "shouldStop (pollResolved k r s) = shouldStop s"
    "sockets (pollResolved k r s) = sockets s"
    "messageQueue (pollResolved k r s) = messageQueue s"
    "isOpened (pollResolved k r s) = isOpened s"
    "usingRestfulAPI (pollResolved k r s) = usingRestfulAPI s"
    "idCounter (pollResolved k r s) = idCounter s"
    by (auto simp: pollResolved_def pollCatch_def set_phase_def emit_def Let_def
        split: sum.splits bool.splits)
qed

lemma pollWake_fields:
  "trace (pollWake k s) =
     (if usingRestfulAPI s \<and> shouldStop s (pid (pollers s ! k)) \<noteq> Some True
      then trace s @ [RestfulCall (pid (pollers s ! k))] else trace s)"
  "pollers (pollWake k s) =
     (pollers s)[k := (pollers s ! k)\<lparr>phase :=
        (if usingRestfulAPI s \<and> shouldStop s (pid (pollers s ! k)) \<noteq> Some True
         then InFlight else Finished)\<rparr>]"
  "subscriptions (pollWake k s) = subscriptions s"
  "shouldStop (pollWake k s) = shouldStop s"
  "sockets (pollWake k s) = sockets s"
  "messageQueue (pollWake k s) = messageQueue s"
  "isOpened (pollWake k s) = isOpened s"
  "usingRestfulAPI (pollWake k s) = usingRestfulAPI s"
  "idCounter (pollWake k s) = idCounter s"
  by (simp_all add: pollWake_def pollLoopHead_def set_phase_def emit_def)

text \<open>A request that settles calls its own callback at most twice, and is no longer in flight.\<close>

lemma settle_step:
  assumes "is_settle e"
  shows "restcalls i (trace (step e s)) = restcalls i (trace s)"
    and "sends i (trace (step e s)) = sends i (trace s)"
    and "callbacks i (trace (step e s)) + 2 * inflight i (pollers (step e s))
           \<le> callbacks i (trace s) + 2 * inflight i (pollers s)"
    and "(\<forall>p \<in> set (pollers s). pid p \<noteq> i) \<Longrightarrow>
           callbacks i (trace (step e s)) = callbacks i (trace s)"
proof -
  have "\<exists>k. (poller_phase s k = Some InFlight \<and>
              ((\<exists>r. step e s = pollResolved k r s) \<or> (\<exists>x. step e s = pollCatch k x s)))
            \<or> step e s = s"
    using assms by (cases e) auto
  then obtain k where k: "(poller_phase s k = Some InFlight \<and>
              ((\<exists>r. step e s = pollResolved k r s) \<or> (\<exists>x. step e s = pollCatch k x s)))
            \<or> step e s = s" by blast
  let ?G = "restcalls i (trace (step e s)) = restcalls i (trace s) \<and>
    sends i (trace (step e s)) = sends i (trace s) \<and>
    callbacks i (trace (step e s)) + 2 * inflight i (pollers (step e s))
           \<le> callbacks i (trace s) + 2 * inflight i (pollers s) \<and>
    ((\<forall>p \<in> set (pollers s). pid p \<noteq> i) \<longrightarrow>
           callbacks i (trace (step e s)) = callbacks i (trace s))"
  have ?G
  proof (cases "step e s = s")
    case True
    then show ?thesis by simp
  next
    case False
    with k have ph: "poller_phase s k = Some InFlight"
      and st: "(\<exists>r. step e s = pollResolved k r s) \<or> (\<exists>x. step e s = pollCatch k x s)"
      by auto
    let ?p = "pollers s ! k"
    from ph have kl: "k < length (pollers s)" and pf: "phase ?p = InFlight"
      by (auto simp: poller_phase_def split: if_splits)
    have mem: "?p \<in> set (pollers s)" using kl by simp
    obtain tr where tr: "trace (step e s) = trace s @ tr" "length tr \<le> 2"
      "\<forall>a \<in> set tr. \<exists>x d. a = Callback (pid ?p) x d"
    proof -
      from st show ?thesis
      proof
        assume "\<exists>r. step e s = pollResolved k r s"
        then obtain r where "step e s = pollResolved k r s" by blast
        then show ?thesis using pollResolved_fields(1)[of k r s] that by auto
      next
        assume "\<exists>x. step e s = pollCatch k x s"
        then obtain x where "step e s = pollCatch k x s" by blast
        then show ?thesis
          using pollCatch_fields(1)[of k x s] that[of "[Callback (pid ?p) x JNull]"] by simp
      qed
    qed
    have po: "pollers (step e s) = (pollers s)[k := ?p\<lparr>phase := Sleeping\<rparr>] \<or>
              pollers (step e s) = (pollers s)[k := ?p\<lparr>phase := Finished\<rparr>]"
    proof -
      from st show ?thesis
      proof
        assume "\<exists>r. step e s = pollResolved k r s"
        then obtain r where "step e s = pollResolved k r s" by blast
        then show ?thesis using pollResolved_fields(2)[of k r s] by simp
      next
        assume "\<exists>x. step e s = pollCatch k x s"
        then obtain x where "step e s = pollCatch k x s" by blast
        then show ?thesis using pollCatch_fields(2)[of k x s] by simp
      qed
    qed
    have inf: "inflight i (pollers (step e s)) + (if pid ?p = i then 1 else 0) =
               inflight i (pollers s)"
      using po inflight_update[OF kl, of i Sleeping] inflight_update[OF kl, of i Finished] pf
      by auto
    note c = callbacks_only[OF tr(3), of i]
    show ?thesis
    proof (cases "pid ?p = i")
      case True
      have "callbacks i (trace (step e s)) \<le> callbacks i (trace s) + 2"
        using c tr(1,2) by simp
      moreover have "inflight i (pollers (step e s)) + 1 = inflight i (pollers s)"
        using inf True by simp
      ultimately show ?thesis using c tr(1) mem True by auto
    next
      case False
      then show ?thesis using c tr(1) inf by simp
    qed
  qed
  then show "restcalls i (trace (step e s)) = restcalls i (trace s)"
    and "sends i (trace (step e s)) = sends i (trace s)"
    and "callbacks i (trace (step e s)) + 2 * inflight i (pollers (step e s))
           \<le> callbacks i (trace s) + 2 * inflight i (pollers s)"
    and "(\<forall>p \<in> set (pollers s). pid p \<noteq> i) \<Longrightarrow>
           callbacks i (trace (step e s)) = callbacks i (trace s)"
    by simp_all
qed

lemma poll_step_frame:
  assumes "is_poll_event e"
  shows "subscriptions (step e s) = subscriptions s"
    and "shouldStop (step e s) = shouldStop s"
    and "sockets (step e s) = sockets s"
    and "messageQueue (step e s) = messageQueue s"
    and "isOpened (step e s) = isOpened s"
    and "usingRestfulAPI (step e s) = usingRestfulAPI s"
    and "idCounter (step e s) = idCounter s"
    and "map pid (pollers (step e s)) = map pid (pollers s)"
proof -
  show "subscriptions (step e s) = subscriptions s"
    and "shouldStop (step e s) = shouldStop s"
    and "sockets (step e s) = sockets s"
    and "messageQueue (step e s) = messageQueue s"
    and "isOpened (step e s) = isOpened s"
    and "usingRestfulAPI (step e s) = usingRestfulAPI s"
    and "idCounter (step e s) = idCounter s"
    using assms
    by (cases e; simp add: pollResolved_fields pollCatch_fields pollWake_fields)+
  show "map pid (pollers (step e s)) = map pid (pollers s)"
  proof (cases e)
    case (PollResolve k r)
    then show ?thesis using pollResolved_fields(2)[of k r s] by (auto simp: pid_set_phase)
  next
    case (PollReject k x)
    then show ?thesis using pollCatch_fields(2)[of k x s] by (auto simp: pid_set_phase)
  next
    case (PollWake k)
    then show ?thesis by (simp add: pollWake_fields pid_set_phase)
  qed (use assms in simp_all)
qed

lemma wake_step:
  assumes "shouldStop s i = Some True \<or> (\<forall>p \<in> set (pollers s). pid p \<noteq> i)"
  shows "callbacks i (trace (step (PollWake k) s)) = callbacks i (trace s)"
    and "restcalls i (trace (step (PollWake k) s)) = restcalls i (trace s)"
    and "sends i (trace (step (PollWake k) s)) = sends i (trace s)"
    and "inflight i (pollers (step (PollWake k) s)) = inflight i (pollers s)"
proof -
  let ?G = "callbacks i (trace (step (PollWake k) s)) = callbacks i (trace s) \<and>
    restcalls i (trace (step (PollWake k) s)) = restcalls i (trace s) \<and>
    sends i (trace (step (PollWake k) s)) = sends i (trace s) \<and>
    inflight i (pollers (step (PollWake k) s)) = inflight i (pollers s)"
  have ?G
  proof (cases "poller_phase s k = Some Sleeping")
    case False
    then show ?thesis by simp
  next
    case True
    let ?p = "pollers s ! k"
    from True have kl: "k < length (pollers s)" and pf: "phase ?p = Sleeping"
      by (auto simp: poller_phase_def split: if_splits)
    have mem: "?p \<in> set (pollers s)" using kl by simp
    have stop: "pid ?p = i \<Longrightarrow> shouldStop s (pid ?p) = Some True"
      using assms mem by auto
    let ?ph = "if usingRestfulAPI s \<and> shouldStop s (pid ?p) \<noteq> Some True then InFlight else Finished"
    have inf: "inflight i ((pollers s)[k := ?p\<lparr>phase := ?ph\<rparr>]) =
        inflight i (pollers s) + (if pid ?p = i \<and> ?ph = InFlight then 1 else 0)"
      using inflight_update[OF kl, of i ?ph] pf by simp
    have "pid ?p = i \<Longrightarrow> ?ph = Finished" using stop by simp
    then have inf': "inflight i ((pollers s)[k := ?p\<lparr>phase := ?ph\<rparr>]) = inflight i (pollers s)"
      using inf by auto
    show ?thesis using True stop inf'
      by (auto simp: pollWake_fields simp del: inflight_simps)
  qed
  then show "callbacks i (trace (step (PollWake k) s)) = callbacks i (trace s)"
    and "restcalls i (trace (step (PollWake k) s)) = restcalls i (trace s)"
    and "sends i (trace (step (PollWake k) s)) = sends i (trace s)"
    and "inflight i (pollers (step (PollWake k) s)) = inflight i (pollers s)"
    by simp_all
qed

subsection \<open>After unsubscribe\<close>

lemma message_step:
  assumes "map_of (subscriptions s) i = None"
  shows "callbacks i (trace (step (SockMessage j d) s)) = callbacks i (trace s)"
    and "restcalls i (trace (step (SockMessage j d) s)) = restcalls i (trace s)"
    and "subscriptions (step (SockMessage j d) s) = subscriptions s"
    and "shouldStop (step (SockMessage j d) s) = shouldStop s"
    and "pollers (step (SockMessage j d) s) = pollers s"
proof -
  obtain as r where d: "dispatch d (subscriptions s) = (as, r)" by (cases "dispatch d (subscriptions s)")
  have z: "callbacks i as = 0" "restcalls i as = 0"
    using dispatch_callbacks[OF assms, of d] d by simp_all
  show "callbacks i (trace (step (SockMessage j d) s)) = callbacks i (trace s)"
    and "restcalls i (trace (step (SockMessage j d) s)) = restcalls i (trace s)"
    and "subscriptions (step (SockMessage j d) s) = subscriptions s"
    and "shouldStop (step (SockMessage j d) s) = shouldStop s"
    and "pollers (step (SockMessage j d) s) = pollers s"
    using d z by (cases r; simp add: onMessage_def)+
qed

lemma no_api_unregistered: "map_of (subscriptions s) i = None \<Longrightarrow> no_api i s"
  by (simp add: no_api_def)

lemma halted_step:
  assumes h: "halted i s"
  shows "halted i (step e s)"
    and "restcalls i (trace (step e s)) = restcalls i (trace s)"
    and "callbacks i (trace (step e s)) + 2 * inflight i (pollers (step e s))
           \<le> callbacks i (trace s) + 2 * inflight i (pollers s)"
    and "\<not> is_settle e \<Longrightarrow> callbacks i (trace (step e s)) = callbacks i (trace s)"
proof -
  from h have f: "fresh_ids s" and lt: "i < idCounter s"
    and un: "map_of (subscriptions s) i = None" and st: "shouldStop s i = Some True"
    by (simp_all add: halted_def)
  have f': "fresh_ids (step e s)" using f by (rule fresh_ids_step)
  have lt': "i < idCounter (step e s)" using lt idCounter_step[of s e] by simp
  let ?G = "map_of (subscriptions (step e s)) i = None \<and> shouldStop (step e s) i = Some True \<and>
    restcalls i (trace (step e s)) = restcalls i (trace s) \<and>
    callbacks i (trace (step e s)) + 2 * inflight i (pollers (step e s))
           \<le> callbacks i (trace s) + 2 * inflight i (pollers s) \<and>
    (\<not> is_settle e \<longrightarrow> callbacks i (trace (step e s)) = callbacks i (trace s))"
  have ?G
  proof (cases "is_poll_event e")
    case True
    note fr = poll_step_frame[OF True, of s]
    show ?thesis
    proof (cases "is_settle e")
      case s: True
      show ?thesis using settle_step(1,3)[OF s, of i s] fr(1,2) un st s by simp
    next
      case False
      with True obtain k where e: "e = PollWake k" by (cases e) auto
      have "shouldStop s i = Some True \<or> (\<forall>p \<in> set (pollers s). pid p \<noteq> i)" using st by simp
      note w = wake_step[OF this, of k]
      show ?thesis using w fr(1,2) un st unfolding e by simp
    qed
  next
    case np: False
    show ?thesis
    proof (cases "is_SockMessage e")
      case True
      then obtain j d where e: "e = SockMessage j d" by (cases e) auto
      show ?thesis using message_step[OF un, of j d] un st unfolding e by simp
    next
      case False
      note o = other_step[OF no_api_unregistered[OF un] lt False np]
      show ?thesis using o(1,2,3) o(5)[OF un] st by simp
    qed
  qed
  then show "halted i (step e s)"
    and "restcalls i (trace (step e s)) = restcalls i (trace s)"
    and "callbacks i (trace (step e s)) + 2 * inflight i (pollers (step e s))
           \<le> callbacks i (trace s) + 2 * inflight i (pollers s)"
    and "\<not> is_settle e \<Longrightarrow> callbacks i (trace (step e s)) = callbacks i (trace s)"
    using f' lt' by (simp_all add: halted_def)
qed

lemma halted_run:
  "halted i s \<Longrightarrow>
   halted i (run es s) \<and>
   restcalls i (trace (run es s)) = restcalls i (trace s) \<and>
   callbacks i (trace (run es s)) + 2 * inflight i (pollers (run es s))
     \<le> callbacks i (trace s) + 2 * inflight i (pollers s)"
proof (induction es arbitrary: s)
  case Nil
  then show ?case by simp
next
  case (Cons e es)
  note s1 = halted_step(1,2,3)[OF Cons.prems, of e]
  note ih = Cons.IH[OF s1(1)]
  have "halted i (run (e # es) s)" using ih by simp
  moreover have "restcalls i (trace (run (e # es) s)) = restcalls i (trace s)"
    using ih s1(2) by simp
  moreover have "callbacks i (trace (run (e # es) s)) + 2 * inflight i (pollers (run (e # es) s))
     \<le> callbacks i (trace s) + 2 * inflight i (pollers s)"
    using ih s1(3) by simp
  ultimately show ?case by blast
qed

lemma unsubscribe_halts:
  assumes "fresh_ids s" and "map_of (subscriptions s) i = Some sub"
  shows "halted i (snd (unsubscribe i ps s))"
    and "callbacks i (trace (snd (unsubscribe i ps s))) = callbacks i (trace s)"
    and "restcalls i (trace (snd (unsubscribe i ps s))) = restcalls i (trace s)"
    and "pollers (snd (unsubscribe i ps s)) = pollers s"
proof -
  let ?s' = "snd (unsubscribe i ps s)"
  have s': "?s' = step (Unsubscribe i ps) s" by simp
  have f': "fresh_ids ?s'" unfolding s' using assms(1) by (rule fresh_ids_step)
  have "(i, sub) \<in> set (subscriptions s)" using assms(2) by (rule map_of_SomeD)
  then have "i \<in> fst ` set (subscriptions s)" by (metis fst_conv image_eqI)
  then have "i < idCounter s" using assms(1) unfolding fresh_ids_def by blast
  then have lt: "i < idCounter ?s'" using idCounter_step[of s "Unsubscribe i ps"] by simp
  have g: "trace ?s' = trace s \<or> (\<exists>j m. trace ?s' = trace s @ [SocketSend j m])"
      "pollers ?s' = pollers s"
      "subscriptions ?s' = AList.delete i (subscriptions s)"
      "shouldStop ?s' i = Some True"
    using assms(2)
    by (auto simp: unsubscribe_def stopPollingById_def Let_def send_def emit_def
          split: option.splits ready.splits)
  have "map_of (subscriptions ?s') i = None" using g(3) by (simp add: delete_conv')
  then show "halted i ?s'" using f' lt g(4) by (simp add: halted_def)
  show "callbacks i (trace ?s') = callbacks i (trace s)"
    "restcalls i (trace ?s') = restcalls i (trace s)"
    using g(1) by auto
  show "pollers ?s' = pollers s" by (rule g(2))
qed

subsection \<open>Degraded, without a poll function\<close>











lemma s_three_fields:
  "subscriptions s_three =
     [(1, \<lparr>message = \<lparr>params = JStr ''a'', msg_id = 1\<rparr>, callback = cb_returns,
            predicate = matches_all, restfulApiFunc = False\<rparr>),
      (2, \<lparr>message = \<lparr>params = JStr ''b'', msg_id = 2\<rparr>, callback = cb_throws,
            predicate = matches_all, restfulApiFunc = False\<rparr>),
      (3, \<lparr>message = \<lparr>params = JStr ''c'', msg_id = 3\<rparr>, callback = cb_returns,
            predicate = matches_all, restfulApiFunc = False\<rparr>)]"
  "sockets s_three = [Opened]"
  by (simp_all add: s_three_def s_new_eq eval_defs)


lemma s_degraded_eq:
  "s_degraded = \<lparr>url = ''wss://stream'', sockets = [Closed, Closed, Closed], socket = Some 2,
        isOpened = False, messageQueue = [], reconnectTimer = False, idCounter = 1,
        reconnectCount = 0, subscriptions = [], usingRestfulAPI = True, isBehind = False,
        idleTime = 600000, lastActiveTime = None, checkIdleTimer = False,
        shouldStop = (\<lambda>i. None), pollers = [],
        trace = [NewWebSocket 0, NewWebSocket 1, NewWebSocket 2]\<rparr>"
  by (simp add: s_degraded_def connection_lost_def s_new_eq eval_defs)

lemma s_polling_fields:
  "subscriptions s_polling =
     [(1, \<lparr>message = \<lparr>params = JStr ''a'', msg_id = 1\<rparr>, callback = cb_returns,
            predicate = matches_all, restfulApiFunc = True\<rparr>)]"
  "pollers s_polling =
     [\<lparr>pid = 1, pcallback = cb_returns, ppredicate = matches_all, phase = InFlight\<rparr>]"
  "trace s_polling = [NewWebSocket 0, NewWebSocket 1, NewWebSocket 2, RestfulCall 1]"
  "idCounter s_polling = 2" "usingRestfulAPI s_polling" "\<not> isOpened s_polling"
  "shouldStop s_polling 1 = Some False" "sockets s_polling = [Closed, Closed, Closed]"
  "socket s_polling = Some 2"
  by (simp_all add: s_polling_def s_degraded_eq eval_defs)


section \<open>The claims\<close>

subsection \<open>C1\<close>




subsection \<open>C2\<close>




subsection \<open>C3\<close>

text \<open>
  Claim C3, as amended. When the callback or the predicate of a subscription throws during
  the dispatch of a frame, \<open>onMessage\<close> catches and logs the exception and the dispatch ends
  there: the subscriptions before it in insertion order have been served, the ones after it
  are not visited.
\<close>

theorem dispatch_ends_at_throw:
  assumes "subscriptions s = pre @ (i, sub) # post"
    and "dispatch data pre = (as, None)"
    and "dispatch data [(i, sub)] = (bs, Some x)"
  shows "onMessage data s = s\<lparr>trace := trace s @ as @ bs @ [ConsoleLog x]\<rparr>"
proof -
  have "dispatch data ((i, sub) # post) = (bs, Some x)"
    using assms(3) by (auto split: option.splits sum.splits bool.splits prod.splits)
  then have "dispatch data (subscriptions s) = (as @ bs, Some x)"
    using assms(1,2) by (simp add: dispatch_append)
  then show ?thesis by (simp add: onMessage_def)
qed

text \<open>
  Three subscribers match a frame and the second one throws: the first two are called, the
  exception is logged, the third is not called.
\<close>

theorem dispatch_ends_at_throw_witness:
  "onMessage tick_frame s_three =
     s_three\<lparr>trace := trace s_three @ [Callback 1 JNull tick_frame] @
        [Callback 2 JNull tick_frame] @ [ConsoleLog (JStr ''boom'')]\<rparr>"
proof -
  let ?sub = "\<lambda>p cb i. \<lparr>message = \<lparr>params = JStr p, msg_id = i\<rparr>, callback = cb,
            predicate = matches_all, restfulApiFunc = False\<rparr>"
  have 1: "subscriptions s_three = [(1, ?sub ''a'' cb_returns 1)] @ (2, ?sub ''b'' cb_throws 2) # [(3, ?sub ''c'' cb_returns 3)]"
    by (simp add: s_three_fields)
  have 2: "dispatch tick_frame [(1, ?sub ''a'' cb_returns 1)] = ([Callback 1 JNull tick_frame], None)"
    by (simp add: sample_defs)
  have 3: "dispatch tick_frame [(2, ?sub ''b'' cb_throws 2)] = ([Callback 2 JNull tick_frame], Some (JStr ''boom''))"
    by (simp add: sample_defs)
  show ?thesis by (rule dispatch_ends_at_throw[OF 1 2 3])
qed

text \<open>
  Claim C3 as stated fails: on a frame with an error field the callback of the second of
  three registered subscriptions throws, and the third one never receives the error.
\<close>

theorem throw_skips_later_subscribers:
  "map fst (subscriptions s_three) = [1, 2, 3] \<and>
   trace (step (SockMessage 0 err_frame) s_three) =
     trace s_three @ [Callback 1 (JStr ''rate limit'') JNull,
                      Callback 2 (JStr ''rate limit'') JNull, ConsoleLog (JStr ''boom'')]"
  by (simp add: s_three_fields sample_defs ready_of_def onMessage_def)

subsection \<open>C4\<close>

text \<open>
  Claim C4, as amended. If no callback called for the frame throws, the dispatch of a frame
  whose decoded payload has an \<open>error\<close> field calls the callback of every registered
  subscription with \<open>(error, null)\<close>, in insertion order and whatever its predicate says. If
  no predicate or callback called for the frame throws, the dispatch of a frame without an
  \<open>error\<close> field calls \<open>(null, payload)\<close> for exactly the subscriptions whose predicate returns
  true. In every case, also when one throws, a callback that is invoked is invoked with
  \<open>(error, null)\<close> on an error frame, and with \<open>(null, payload)\<close> and for a subscription whose
  predicate returned true on any other.
\<close>

theorem dispatch_error_broadcast_plain_filtered:
  "(error_field data = Some e \<longrightarrow>
      (\<forall>(i, sub) \<in> set (subscriptions s). callback sub e JNull = Inr ()) \<longrightarrow>
      onMessage data s =
        s\<lparr>trace := trace s @ map (\<lambda>(i, sub). Callback i e JNull) (subscriptions s)\<rparr>)
   \<and> (error_field data = None \<longrightarrow>
      (\<forall>(i, sub) \<in> set (subscriptions s). predicate sub data = Inr False \<or>
          (predicate sub data = Inr True \<and> callback sub JNull data = Inr ())) \<longrightarrow>
      onMessage data s =
        s\<lparr>trace := trace s @ map (\<lambda>(i, sub). Callback i JNull data)
             (filter (\<lambda>(i, sub). predicate sub data = Inr True) (subscriptions s))\<rparr>)
   \<and> (\<forall>a \<in> set (fst (dispatch data (subscriptions s))).
        case error_field data of
          Some e \<Rightarrow> \<exists>i sub. (i, sub) \<in> set (subscriptions s) \<and> a = Callback i e JNull
        | None \<Rightarrow> \<exists>i sub. (i, sub) \<in> set (subscriptions s) \<and>
                   predicate sub data = Inr True \<and> a = Callback i JNull data)"
proof (intro conjI impI ballI)
  assume "error_field data = Some e"
    and "\<forall>(i, sub) \<in> set (subscriptions s). callback sub e JNull = Inr ()"
  then show "onMessage data s =
        s\<lparr>trace := trace s @ map (\<lambda>(i, sub). Callback i e JNull) (subscriptions s)\<rparr>"
    by (simp add: onMessage_def dispatch_error_all)
next
  assume "error_field data = None"
    and "\<forall>(i, sub) \<in> set (subscriptions s). predicate sub data = Inr False \<or>
          (predicate sub data = Inr True \<and> callback sub JNull data = Inr ())"
  then show "onMessage data s =
        s\<lparr>trace := trace s @ map (\<lambda>(i, sub). Callback i JNull data)
             (filter (\<lambda>(i, sub). predicate sub data = Inr True) (subscriptions s))\<rparr>"
    by (simp add: onMessage_def dispatch_plain_matching)
next
  fix a assume "a \<in> set (fst (dispatch data (subscriptions s)))"
  then show "case error_field data of
          Some e \<Rightarrow> \<exists>i sub. (i, sub) \<in> set (subscriptions s) \<and> a = Callback i e JNull
        | None \<Rightarrow> \<exists>i sub. (i, sub) \<in> set (subscriptions s) \<and>
                   predicate sub data = Inr True \<and> a = Callback i JNull data"
    by (rule dispatch_only)
qed

text \<open>
  A subscriber that matches nothing and one that matches everything: both receive the error
  of an error frame, only the second receives a ticker frame.
\<close>

theorem dispatch_error_broadcast_plain_filtered_witness:
  "trace (onMessage err_frame s_two) =
     trace s_two @ [Callback 1 (JStr ''rate limit'') JNull, Callback 2 (JStr ''rate limit'') JNull]
   \<and> trace (onMessage tick_frame s_two) = trace s_two @ [Callback 2 JNull tick_frame]"
  using dispatch_error_broadcast_plain_filtered[of err_frame "JStr ''rate limit''" s_two]
    dispatch_error_broadcast_plain_filtered[of tick_frame JNull s_two]
  by (simp add: s_two_fields sample_defs)

text \<open>
  Claim C4 as stated fails: three subscriptions are registered and the callback of the second
  one throws; the third one does not receive the error of an error frame, and it does not
  receive a frame without error that its predicate matches.
\<close>

theorem error_broadcast_stops_at_throw:
  "map_of (subscriptions s_three) 3 =
     Some \<lparr>message = \<lparr>params = JStr ''c'', msg_id = 3\<rparr>, callback = cb_returns,
            predicate = matches_all, restfulApiFunc = False\<rparr> \<and>
   error_field err_frame = Some (JStr ''rate limit'') \<and>
   callbacks 3 (trace (onMessage err_frame s_three)) = 0 \<and>
   error_field tick_frame = None \<and> matches_all tick_frame = Inr True \<and>
   trace (onMessage tick_frame s_three) =
     trace s_three @ [Callback 1 JNull tick_frame, Callback 2 JNull tick_frame,
                      ConsoleLog (JStr ''boom'')]"
  by (simp add: s_three_def s_new_eq eval_defs sample_defs)

subsection \<open>C5\<close>

text \<open>
  Claim C5. The ids returned by the \<open>subscribe\<close> calls of any run of one client, from any
  state and with any other events in between, are strictly increasing in call order, hence
  pairwise distinct. A call returns the value of \<open>idCounter\<close> as its id whenever it returns:
  always when the client is Degraded or \<open>isOpened\<close> is false, and with \<open>isOpened\<close> true unless
  \<open>send\<close> throws, which it does when the socket in \<open>this.socket\<close> is still connecting (or
  when \<open>this.socket\<close> is \<open>null\<close>, which it never is after construction). (\<open>idCounter\<close> is a
  JavaScript number holding an integer; the model counts in \<open>nat\<close>, which is exact below
  \<open>2^53\<close>.)
\<close>

theorem subscribe_ids_increasing:
  "sorted_wrt (<) (subscribe_ids es s) \<and> distinct (subscribe_ids es s) \<and>
   fst (subscribe ps' cb' pr' api' s) =
     (if usingRestfulAPI s then Inr (idCounter s)
      else if isOpened s
      then (case socket s of
              None \<Rightarrow> Inl TypeError
            | Some j \<Rightarrow>
                if ready_of s j = Some Connecting then Inl InvalidStateError
                else Inr (idCounter s))
      else Inr (idCounter s))"
proof -
  have "sorted_wrt (<) (subscribe_ids es s)"
  proof (induction es arbitrary: s)
    case Nil
    then show ?case by simp
  next
    case (Cons e es)
    show ?case
    proof (cases "\<exists>ps cb pr api. e = Subscribe ps cb pr api")
      case True
      then obtain ps cb pr api where Subscribe: "e = Subscribe ps cb pr api" by blast
      let ?s1 = "snd (subscribe ps cb pr api s)"
      show ?thesis
      proof (cases "fst (subscribe ps cb pr api s)")
        case (Inl x)
        then show ?thesis using Cons.IH[of ?s1] Subscribe by simp
      next
        case (Inr i)
        have "\<forall>x \<in> set (subscribe_ids es ?s1). i < x"
        proof
          fix x assume "x \<in> set (subscribe_ids es ?s1)"
          from subscribe_ids_ge[OF this] subscribe_id[OF Inr]
          show "i < x" by (simp add: subscribe_idCounter)
        qed
        then show ?thesis using Cons.IH[of ?s1] Subscribe Inr by simp
      qed
    next
      case False
      then show ?thesis using Cons.IH[of "step e s"] subscribe_ids_other[of e es s] by auto
    qed
  qed
  moreover have "fst (subscribe ps' cb' pr' api' s) =
     (if usingRestfulAPI s then Inr (idCounter s)
      else if isOpened s
      then (case socket s of
              None \<Rightarrow> Inl TypeError
            | Some j \<Rightarrow>
                if ready_of s j = Some Connecting then Inl InvalidStateError
                else Inr (idCounter s))
      else Inr (idCounter s))"
    by (simp add: subscribe_def Let_def send_def emit_def ready_of_def
        split: option.splits ready.splits)
  ultimately show ?thesis by (simp add: strict_sorted_iff)
qed

text \<open>
  Three \<open>subscribe\<close> calls on an open connection with two subscriptions, an \<open>unsubscribe\<close>
  after the first: they return 3, 5 and 6 (the \<open>unsubscribe\<close> request takes 4). The first
  \<open>subscribe\<close> after construction returns 1.
\<close>

theorem subscribe_ids_increasing_witness:
  "subscribe_ids [Subscribe (JStr ''c'') cb_returns matches_all False,
                  Unsubscribe 1 (JStr ''u''),
                  Subscribe (JStr ''d'') cb_returns matches_all False,
                  Subscribe (JStr ''e'') cb_returns matches_all False] s_two = [3, 5, 6] \<and>
   sorted_wrt (<) [3, 5, 6 :: nat] \<and>
   fst (subscribe (JStr ''c'') cb_returns matches_all False s_two) = Inr 3 \<and>
   fst (subscribe (JStr ''a'') cb_returns matches_all False s_new) = Inr 1"
proof -
  let ?es = "[Subscribe (JStr ''c'') cb_returns matches_all False,
              Unsubscribe 1 (JStr ''u''),
              Subscribe (JStr ''d'') cb_returns matches_all False,
              Subscribe (JStr ''e'') cb_returns matches_all False]"
  have v: "subscribe_ids ?es s_two = [3, 5, 6]"
    by (simp add: s_two_def s_new_eq eval_defs)
  have f: "\<not> usingRestfulAPI s_two" "isOpened s_two" "socket s_two = Some 0"
    "ready_of s_two 0 = Some Opened" "idCounter s_two = 3"
    by (simp_all add: s_two_fields ready_of_def)
  have g: "\<not> usingRestfulAPI s_new" "\<not> isOpened s_new" "idCounter s_new = 1"
    by (simp_all add: s_new_eq)
  have a: "sorted_wrt (<) (subscribe_ids ?es s_two)"
    using subscribe_ids_increasing[of ?es s_two] by blast
  have b: "fst (subscribe (JStr ''c'') cb_returns matches_all False s_two) = Inr 3"
    using subscribe_ids_increasing[of "[]" s_two "JStr ''c''" cb_returns matches_all False] f
    by simp
  have c: "fst (subscribe (JStr ''a'') cb_returns matches_all False s_new) = Inr 1"
    using subscribe_ids_increasing[of "[]" s_new "JStr ''a''" cb_returns matches_all False] g
    by simp
  show ?thesis using a b c unfolding v by simp
qed

subsection \<open>C6\<close>




subsection \<open>C7\<close>




subsection \<open>C8\<close>

text \<open>
  Claim C8, as amended. \<open>send\<close> never changes the pending queue; the choice between
  transmitting and queueing is made by \<open>subscribe\<close>. While the client is not Degraded:
  \<open>subscribe\<close> with \<open>isOpened\<close> true and the socket held in \<open>this.socket\<close> open returns the
  id, transmits the request at once and leaves the queue as it is; \<open>subscribe\<close> with
  \<open>isOpened\<close> false returns the id without an error, transmits nothing and appends the
  request to the tail of the queue. From a state with \<open>isOpened\<close> false, a run in which no
  socket opens only appends to the queue: what was queued stays queued, in the same order.
\<close>

theorem subscribe_sends_or_queues:
  "messageQueue (snd (send m s)) = messageQueue s
   \<and> (\<not> usingRestfulAPI s \<longrightarrow> isOpened s \<longrightarrow> socket s = Some j \<longrightarrow>
        ready_of s j = Some Opened \<longrightarrow>
        fst (subscribe ps cb pr api s) = Inr (idCounter s) \<and>
        trace (snd (subscribe ps cb pr api s)) =
          trace s @ [SocketSend j \<lparr>params = ps, msg_id = idCounter s\<rparr>] \<and>
        messageQueue (snd (subscribe ps cb pr api s)) = messageQueue s)
   \<and> (\<not> usingRestfulAPI s \<longrightarrow> \<not> isOpened s \<longrightarrow>
        fst (subscribe ps cb pr api s) = Inr (idCounter s) \<and>
        trace (snd (subscribe ps cb pr api s)) = trace s \<and>
        messageQueue (snd (subscribe ps cb pr api s)) =
          messageQueue s @ [\<lparr>params = ps, msg_id = idCounter s\<rparr>])
   \<and> (\<not> isOpened s \<longrightarrow> (\<forall>e \<in> set es. \<not> is_SockOpen e) \<longrightarrow>
        (\<exists>ms. messageQueue (run es s) = messageQueue s @ ms))"
proof (intro conjI impI)
  show "messageQueue (snd (send m s)) = messageQueue s"
    by (simp add: send_def emit_def split: option.splits ready.splits)
next
  assume a: "\<not> usingRestfulAPI s" "isOpened s" "socket s = Some j" "ready_of s j = Some Opened"
  then show "fst (subscribe ps cb pr api s) = Inr (idCounter s)"
    "trace (snd (subscribe ps cb pr api s)) =
          trace s @ [SocketSend j \<lparr>params = ps, msg_id = idCounter s\<rparr>]"
    "messageQueue (snd (subscribe ps cb pr api s)) = messageQueue s"
    by (simp_all add: subscribe_def send_def emit_def ready_of_def Let_def split: if_splits)
next
  assume a: "\<not> usingRestfulAPI s" "\<not> isOpened s"
  then show "fst (subscribe ps cb pr api s) = Inr (idCounter s)"
    "trace (snd (subscribe ps cb pr api s)) = trace s"
    "messageQueue (snd (subscribe ps cb pr api s)) =
          messageQueue s @ [\<lparr>params = ps, msg_id = idCounter s\<rparr>]"
    by (simp_all add: subscribe_def Let_def)
next
  assume "\<not> isOpened s" "\<forall>e \<in> set es. \<not> is_SockOpen e"
  then show "\<exists>ms. messageQueue (run es s) = messageQueue s @ ms"
    using closed_run by blast
qed

text \<open>
  Subscribing on an open connection, subscribing after construction, and losing the
  connection attempt with a request queued.
\<close>

theorem subscribe_sends_or_queues_witness:
  "messageQueue (snd (send \<lparr>params = JStr ''p'', msg_id = 7\<rparr> s_new)) = [] \<and>
   trace (snd (subscribe (JStr ''c'') cb_returns matches_all False s_two)) =
     trace s_two @ [SocketSend 0 \<lparr>params = JStr ''c'', msg_id = 3\<rparr>] \<and>
   messageQueue (snd (subscribe (JStr ''a'') cb_returns matches_all False s_new)) =
     [\<lparr>params = JStr ''a'', msg_id = 1\<rparr>] \<and>
   (\<exists>ms. messageQueue (run [SockError 0, SockClose 0, ReconnectTimer]
             (snd (subscribe (JStr ''a'') cb_returns matches_all False s_new))) =
          [\<lparr>params = JStr ''a'', msg_id = 1\<rparr>] @ ms)"
proof -
  let ?s1 = "snd (subscribe (JStr ''a'') cb_returns matches_all False s_new)"
  have a: "\<not> usingRestfulAPI s_two" "isOpened s_two" "socket s_two = Some 0"
    "ready_of s_two 0 = Some Opened"
    by (simp_all add: s_two_fields ready_of_def)
  have b: "\<not> usingRestfulAPI s_new" "\<not> isOpened s_new"
    by (simp_all add: s_new_eq)
  have c: "\<not> isOpened ?s1" "messageQueue ?s1 = [\<lparr>params = JStr ''a'', msg_id = 1\<rparr>]"
    by (simp_all add: s_new_eq subscribe_def Let_def)
  have d: "\<forall>e \<in> set [SockError 0, SockClose 0, ReconnectTimer]. \<not> is_SockOpen e" by simp
  show ?thesis
    using subscribe_sends_or_queues[of "\<lparr>params = JStr ''p'', msg_id = 7\<rparr>" s_new 0
        "JStr ''a''" cb_returns matches_all False "[]"]
      subscribe_sends_or_queues[of "\<lparr>params = JStr ''p'', msg_id = 7\<rparr>" s_two 0
        "JStr ''c''" cb_returns matches_all False "[]"]
      subscribe_sends_or_queues[of "\<lparr>params = JStr ''p'', msg_id = 7\<rparr>" ?s1 0
        "JStr ''c''" cb_returns matches_all False "[SockError 0, SockClose 0, ReconnectTimer]"]
      a b c d
    by (simp add: s_two_fields s_new_eq)
qed

text \<open>
  Claim C8 as stated fails: after construction the connection is not open, and \<open>send\<close> throws
  what \<open>socket.send\<close> throws on a connecting socket and queues nothing.
\<close>

theorem send_never_queues:
  "send \<lparr>params = JStr ''p'', msg_id = 7\<rparr> s_new = (Some InvalidStateError, s_new) \<and>
   \<not> isOpened s_new \<and> messageQueue s_new = []"
  by (simp add: s_new_eq send_def ready_of_def)

subsection \<open>C9\<close>

text \<open>
  Claim C9, as amended. After \<open>unsubscribe(id)\<close> of a registered subscription, in every run
  that follows: push dispatch never calls its callback, its polling loops never call its
  \<open>restfulApiFunc\<close> again, and the only calls of its callback are those a poll request
  already in flight at the time of the \<open>unsubscribe\<close> makes when it settles (at most two each:
  the result, and the exception if the callback throws on it). With no request in flight
  there is no call at all.
\<close>

theorem unsubscribe_bounds_callbacks:
  assumes "fresh_ids s" and "map_of (subscriptions s) i = Some sub"
  shows "let s' = snd (unsubscribe i ps s)
         in \<forall>es. restcalls i (trace (run es s')) = restcalls i (trace s) \<and>
                 callbacks i (trace (run es s'))
                   \<le> callbacks i (trace s) + 2 * inflight i (pollers s) \<and>
                 (\<forall>e. \<not> is_settle e \<longrightarrow>
                    callbacks i (trace (step e (run es s'))) = callbacks i (trace (run es s')))"
proof -
  let ?s' = "snd (unsubscribe i ps s)"
  note u = unsubscribe_halts[OF assms, of ps]
  have "restcalls i (trace (run es ?s')) = restcalls i (trace s) \<and>
        callbacks i (trace (run es ?s')) \<le> callbacks i (trace s) + 2 * inflight i (pollers s) \<and>
        (\<forall>e. \<not> is_settle e \<longrightarrow>
            callbacks i (trace (step e (run es ?s'))) = callbacks i (trace (run es ?s')))" for es
  proof -
    note r = halted_run[OF u(1), of es]
    from r have h: "halted i (run es ?s')" by simp
    have "\<forall>e. \<not> is_settle e \<longrightarrow>
            callbacks i (trace (step e (run es ?s'))) = callbacks i (trace (run es ?s'))"
      using halted_step(4)[OF h] by blast
    moreover have "restcalls i (trace (run es ?s')) = restcalls i (trace s)"
      using r u(3) by simp
    moreover have "callbacks i (trace (run es ?s')) \<le> callbacks i (trace s) + 2 * inflight i (pollers s)"
      using r u(2,4) by simp
    ultimately show ?thesis by blast
  qed
  then show ?thesis by (simp add: Let_def)
qed

text \<open>
  A Degraded client polling for subscription 1, unsubscribed while a request is in flight.
\<close>

theorem unsubscribe_bounds_callbacks_witness:
  "restcalls 1 (trace (run [PollResolve 0 tick_frame, PollWake 0, Visibility False 9]
                         (snd (unsubscribe 1 JNull s_polling)))) = 1 \<and>
   callbacks 1 (trace (run [PollResolve 0 tick_frame, PollWake 0, Visibility False 9]
                         (snd (unsubscribe 1 JNull s_polling)))) \<le> 2 \<and>
   callbacks 1 (trace (step (SockMessage 2 err_frame)
                         (run [PollResolve 0 tick_frame, PollWake 0, Visibility False 9]
                            (snd (unsubscribe 1 JNull s_polling))))) =
   callbacks 1 (trace (run [PollResolve 0 tick_frame, PollWake 0, Visibility False 9]
                         (snd (unsubscribe 1 JNull s_polling))))"
proof -
  have f: "fresh_ids s_polling" by (simp add: fresh_ids_def s_polling_fields)
  have m: "map_of (subscriptions s_polling) 1 =
     Some \<lparr>message = \<lparr>params = JStr ''a'', msg_id = 1\<rparr>, callback = cb_returns,
            predicate = matches_all, restfulApiFunc = True\<rparr>"
    by (simp add: s_polling_fields)
  have c: "restcalls 1 (trace s_polling) = 1" "callbacks 1 (trace s_polling) = 0"
    "inflight 1 (pollers s_polling) = 1"
    by (simp_all add: s_polling_fields)
  have s: "\<not> is_settle (SockMessage 2 err_frame)" by simp
  let ?t = "run [PollResolve 0 tick_frame, PollWake 0, Visibility False 9]
              (snd (unsubscribe 1 JNull s_polling))"
  have "restcalls 1 (trace ?t) = restcalls 1 (trace s_polling) \<and>
        callbacks 1 (trace ?t) \<le> callbacks 1 (trace s_polling) + 2 * inflight 1 (pollers s_polling) \<and>
        (\<forall>e. \<not> is_settle e \<longrightarrow> callbacks 1 (trace (step e ?t)) = callbacks 1 (trace ?t))"
    using unsubscribe_bounds_callbacks[OF f m, of JNull] unfolding Let_def by blast
  then show ?thesis using c s by (simp del: run.simps step.simps)
qed

text \<open>
  Claim C9 as stated fails: \<open>unsubscribe\<close> is called while a poll request is in flight, and
  when the request resolves the loop calls the callback of the unsubscribed subscription.
\<close>

theorem in_flight_poll_calls_back:
  "poller_phase s_polling 0 = Some InFlight \<and>
   subscriptions (step (Unsubscribe 1 JNull) s_polling) = [] \<and>
   trace (run [Unsubscribe 1 JNull, PollResolve 0 tick_frame] s_polling) =
     trace s_polling @ [Callback 1 JNull tick_frame]"
  by (simp add: s_polling_fields poller_phase_def unsubscribe_def stopPollingById_def
      pollResolved_def pollCatch_def set_phase_def emit_def Let_def sample_defs)

subsection \<open>C10\<close>




end
